theory Spec2Isabelle
  imports Main
begin

section \<open>Python primitives\<close>

text \<open>
  The two exceptions the modelled code can raise: list indexing out of range and a
  dictionary lookup of a missing key.
\<close>

datatype py_error = IndexError | KeyError

text \<open>
  \<^verbatim>\<open>xs[i]\<close> for a Python int \<open>i\<close> on a sequence of length \<open>n\<close>: a negative index
  counts from the end, an index out of range raises IndexError.
\<close>

definition py_index :: "nat \<Rightarrow> int \<Rightarrow> py_error + nat" where
  "py_index n i =
     (let j = (if i < 0 then int n + i else i)
      in if 0 \<le> j \<and> j < int n then Inr (nat j) else Inl IndexError)"

definition py_get :: "'a list \<Rightarrow> int \<Rightarrow> py_error + 'a" where
  "py_get xs i = (case py_index (length xs) i of Inl e \<Rightarrow> Inl e | Inr k \<Rightarrow> Inr (xs ! k))"

definition py_set :: "'a list \<Rightarrow> int \<Rightarrow> 'a \<Rightarrow> py_error + 'a list" where
  "py_set xs i v = (case py_index (length xs) i of Inl e \<Rightarrow> Inl e | Inr k \<Rightarrow> Inr (xs[k := v]))"

text \<open>
  \<^verbatim>\<open>any(f(x) for x in xs)\<close> and \<^verbatim>\<open>all(f(x) for x in xs)\<close>: the generator is consumed
  from the left and abandoned at the first deciding element; an exception raised by an
  element that is reached propagates.
\<close>

fun py_any :: "('a \<Rightarrow> py_error + bool) \<Rightarrow> 'a list \<Rightarrow> py_error + bool" where
  "py_any f [] = Inr False"
| "py_any f (x # xs) =
     (case f x of Inl e \<Rightarrow> Inl e | Inr b \<Rightarrow> if b then Inr True else py_any f xs)"

fun py_all :: "('a \<Rightarrow> py_error + bool) \<Rightarrow> 'a list \<Rightarrow> py_error + bool" where
  "py_all f [] = Inr True"
| "py_all f (x # xs) =
     (case f x of Inl e \<Rightarrow> Inl e | Inr b \<Rightarrow> if b then py_all f xs else Inr False)"

text \<open>\<^verbatim>\<open>[f(x) for x in xs]\<close>, with the exception of the first failing element.\<close>

fun py_map :: "('a \<Rightarrow> py_error + 'b) \<Rightarrow> 'a list \<Rightarrow> py_error + 'b list" where
  "py_map f [] = Inr []"
| "py_map f (x # xs) =
     (case f x of Inl e \<Rightarrow> Inl e
      | Inr y \<Rightarrow> (case py_map f xs of Inl e \<Rightarrow> Inl e | Inr ys \<Rightarrow> Inr (y # ys)))"

text \<open>
  \<^verbatim>\<open>for x in xs: body\<close> over a state the body mutates: an exception leaves the loop
  with the state as mutated so far.
\<close>

fun py_for :: "'a list \<Rightarrow> ('s \<Rightarrow> 'a \<Rightarrow> (py_error + unit) \<times> 's) \<Rightarrow> 's \<Rightarrow> (py_error + unit) \<times> 's" where
  "py_for [] body s = (Inr (), s)"
| "py_for (x # xs) body s =
     (case body s x of (Inl e, s') \<Rightarrow> (Inl e, s') | (Inr u, s') \<Rightarrow> py_for xs body s')"


section \<open>bankeralgodeadlock.py: class BankersAlgorithm\<close>

text \<open>
  The rows of \<^verbatim>\<open>self.allocation\<close> and \<^verbatim>\<open>self.need\<close> are list objects that the code
  mutates in place and that \<^verbatim>\<open>self.allocation[:]\<close> shares with its copy, so they live in
  a store: the two attributes are lists of row addresses and \<open>heap\<close> maps an address to
  the row's current contents. \<^verbatim>\<open>self.available\<close> holds ints only, for which a copy by
  slice is a full copy, and \<^verbatim>\<open>self.max\<close> is never written: both are kept by value.
  Python's ints are unbounded.
\<close>

type_synonym addr = nat

record banker =
  num_resources :: nat
  num_threads :: nat
  available :: "int list"
  max_rows :: "int list list"
  allocation :: "addr list"
  need :: "addr list"
  heap :: "addr \<Rightarrow> int list"

text \<open>\<^verbatim>\<open>rows[t][i]\<close> for one of the two row tables.\<close>

definition row_get :: "banker \<Rightarrow> addr list \<Rightarrow> int \<Rightarrow> nat \<Rightarrow> py_error + int" where
  "row_get s rows t i =
     (case py_get rows t of Inl e \<Rightarrow> Inl e | Inr a \<Rightarrow> py_get (heap s a) (int i))"

text \<open>\<^verbatim>\<open>rows[t][i] += d\<close>: the row object is updated in place.\<close>

definition row_add :: "banker \<Rightarrow> addr list \<Rightarrow> int \<Rightarrow> nat \<Rightarrow> int \<Rightarrow> py_error + banker" where
  "row_add s rows t i d =
     (case py_get rows t of Inl e \<Rightarrow> Inl e
      | Inr a \<Rightarrow>
          (case py_get (heap s a) (int i) of Inl e \<Rightarrow> Inl e
           | Inr v \<Rightarrow> Inr (s\<lparr>heap := (heap s)(a := (heap s a)[i := v + d])\<rparr>)))"

text \<open>
  \<^verbatim>\<open>calculate_need\<close>: a new list of new rows, \<^verbatim>\<open>max[i][j] - allocation[i][j]\<close>.
\<close>

definition calculate_need :: "banker \<Rightarrow> py_error + int list list" where
  "calculate_need s =
     py_map (\<lambda>i. py_map (\<lambda>j.
         (case py_get (max_rows s) (int i) of Inl e \<Rightarrow> Inl e
          | Inr mrow \<Rightarrow>
              (case py_get mrow (int j) of Inl e \<Rightarrow> Inl e
               | Inr m \<Rightarrow>
                   (case row_get s (allocation s) (int i) j of Inl e \<Rightarrow> Inl e
                    | Inr a \<Rightarrow> Inr (m - a)))))
       [0..<num_resources s]) [0..<num_threads s]"

text \<open>Storing freshly built rows at consecutive addresses from \<open>base\<close>.\<close>

fun store_rows :: "addr \<Rightarrow> int list list \<Rightarrow> (addr \<Rightarrow> int list) \<Rightarrow> (addr \<Rightarrow> int list)" where
  "store_rows base [] h = h"
| "store_rows base (r # rs) h = store_rows (Suc base) rs (h(base := r))"

text \<open>
  \<^verbatim>\<open>__init__\<close>: three units of every class available, the literal \<^verbatim>\<open>max\<close> table, three
  literal all-zero allocation rows (addresses 0, 1, 2) and the need rows computed from
  them (addresses from 3).
\<close>

definition init :: "nat \<Rightarrow> nat \<Rightarrow> py_error + banker" where
  "init nr nt =
     (let s0 = \<lparr>num_resources = nr, num_threads = nt,
                available = replicate nr 3,
                max_rows = [[7, 5, 3], [3, 2, 2], [9, 0, 2]],
                allocation = [0, 1, 2],
                need = [],
                heap = store_rows 0 [[0, 0, 0], [0, 0, 0], [0, 0, 0]] (\<lambda>a. [])\<rparr>
      in case calculate_need s0 of Inl e \<Rightarrow> Inl e
         | Inr rows \<Rightarrow>
             Inr (s0\<lparr>need := [3..<3 + length rows], heap := store_rows 3 rows (heap s0)\<rparr>))"

subsection \<open>is_safe\<close>

text \<open>\<^verbatim>\<open>self.need[i][j] <= work[j]\<close>\<close>

definition need_le_work :: "banker \<Rightarrow> int list \<Rightarrow> nat \<Rightarrow> nat \<Rightarrow> py_error + bool" where
  "need_le_work s work i j =
     (case row_get s (need s) (int i) j of Inl e \<Rightarrow> Inl e
      | Inr nd \<Rightarrow> (case py_get work (int j) of Inl e \<Rightarrow> Inl e | Inr w \<Rightarrow> Inr (nd \<le> w)))"

text \<open>\<^verbatim>\<open>for j in range(self.num_resources): work[j] += self.allocation[i][j]\<close>\<close>

fun release_work :: "banker \<Rightarrow> nat \<Rightarrow> int list \<Rightarrow> nat list \<Rightarrow> py_error + int list" where
  "release_work s i work [] = Inr work"
| "release_work s i work (j # js) =
     (case py_get work (int j) of Inl e \<Rightarrow> Inl e
      | Inr w \<Rightarrow>
          (case row_get s (allocation s) (int i) j of Inl e \<Rightarrow> Inl e
           | Inr a \<Rightarrow> release_work s i (work[j := w + a]) js))"

text \<open>
  The inner \<^verbatim>\<open>for i in range(self.num_threads)\<close> with its \<^verbatim>\<open>break\<close>: the first thread
  that is not finished and whose needs fit into \<open>work\<close> is returned with the work vector
  after it has given its allocation back; \<open>None\<close> is \<^verbatim>\<open>progress == False\<close>.
  \<open>finish\<close> has \<open>num_threads\<close> entries, so \<^verbatim>\<open>finish[i]\<close> is always in range.
\<close>

fun scan :: "banker \<Rightarrow> int list \<Rightarrow> bool list \<Rightarrow> nat list \<Rightarrow> py_error + (nat \<times> int list) option" where
  "scan s work finish [] = Inr None"
| "scan s work finish (i # is) =
     (if finish ! i then scan s work finish is
      else (case py_all (need_le_work s work i) [0..<num_resources s] of
              Inl e \<Rightarrow> Inl e
            | Inr fits \<Rightarrow>
                if fits then
                  (case release_work s i work [0..<num_resources s] of
                     Inl e \<Rightarrow> Inl e
                   | Inr work' \<Rightarrow> Inr (Some (i, work')))
                else scan s work finish is))"

text \<open>The \<^verbatim>\<open>while len(safe_sequence) < self.num_threads\<close> loop.\<close>

function safe_loop :: "banker \<Rightarrow> int list \<Rightarrow> bool list \<Rightarrow> nat list \<Rightarrow> py_error + bool \<times> nat list" where
  "safe_loop s work finish safe_sequence =
     (if length safe_sequence < num_threads s then
        (case scan s work finish [0..<num_threads s] of
           Inl e \<Rightarrow> Inl e
         | Inr None \<Rightarrow> Inr (False, safe_sequence)
         | Inr (Some (i, work')) \<Rightarrow>
             safe_loop s work' (finish[i := True]) (safe_sequence @ [i]))
      else Inr (True, safe_sequence))"
  by pat_completeness auto
termination
  by (relation "measure (\<lambda>(s, work, finish, safe_sequence). num_threads s - length safe_sequence)")
    auto

definition is_safe :: "banker \<Rightarrow> py_error + bool \<times> nat list" where
  "is_safe s = safe_loop s (available s) (replicate (num_threads s) False) []"

subsection \<open>request_resources and release_resources\<close>

text \<open>\<^verbatim>\<open>request[i] > self.need[thread_id][i]\<close>\<close>

definition exceeds_need :: "banker \<Rightarrow> int \<Rightarrow> int list \<Rightarrow> nat \<Rightarrow> py_error + bool" where
  "exceeds_need s thread_id request i =
     (case py_get request (int i) of Inl e \<Rightarrow> Inl e
      | Inr r \<Rightarrow>
          (case row_get s (need s) thread_id i of Inl e \<Rightarrow> Inl e | Inr nd \<Rightarrow> Inr (r > nd)))"

text \<open>\<^verbatim>\<open>request[i] > self.available[i]\<close>\<close>

definition exceeds_available :: "banker \<Rightarrow> int list \<Rightarrow> nat \<Rightarrow> py_error + bool" where
  "exceeds_available s request i =
     (case py_get request (int i) of Inl e \<Rightarrow> Inl e
      | Inr r \<Rightarrow>
          (case py_get (available s) (int i) of Inl e \<Rightarrow> Inl e | Inr av \<Rightarrow> Inr (r > av)))"

text \<open>
  One round of the allocation loop:
  \<^verbatim>\<open>self.available[i] -= request[i]\<close>,
  \<^verbatim>\<open>self.allocation[thread_id][i] += request[i]\<close>,
  \<^verbatim>\<open>self.need[thread_id][i] -= request[i]\<close>.
\<close>

definition allocate_step :: "int \<Rightarrow> int list \<Rightarrow> banker \<Rightarrow> nat \<Rightarrow> (py_error + unit) \<times> banker" where
  "allocate_step thread_id request s i =
     (case py_get (available s) (int i) of Inl e \<Rightarrow> (Inl e, s)
      | Inr av \<Rightarrow>
          (case py_get request (int i) of Inl e \<Rightarrow> (Inl e, s)
           | Inr r \<Rightarrow>
               (let s1 = s\<lparr>available := (available s)[i := av - r]\<rparr> in
                case row_add s1 (allocation s1) thread_id i r of Inl e \<Rightarrow> (Inl e, s1)
                | Inr s2 \<Rightarrow>
                    (case row_add s2 (need s2) thread_id i (- r) of Inl e \<Rightarrow> (Inl e, s2)
                     | Inr s3 \<Rightarrow> (Inr (), s3)))))"

text \<open>
  \<^verbatim>\<open>request_resources\<close>. The three \<open>original_\<close> values are what the slices
  \<^verbatim>\<open>self.available[:]\<close>, \<^verbatim>\<open>self.allocation[:]\<close> and \<^verbatim>\<open>self.need[:]\<close> copy: the available
  units, and the row addresses of the two tables. The rollback assigns the three
  attributes and nothing else.
\<close>

definition request_resources :: "banker \<Rightarrow> int \<Rightarrow> int list \<Rightarrow> (py_error + bool) \<times> banker" where
  "request_resources s thread_id request =
     (case py_any (exceeds_need s thread_id request) [0..<num_resources s] of
        Inl e \<Rightarrow> (Inl e, s)
      | Inr invalid \<Rightarrow>
          if invalid then (Inr False, s)
          else
            (case py_any (exceeds_available s request) [0..<num_resources s] of
               Inl e \<Rightarrow> (Inl e, s)
             | Inr waiting \<Rightarrow>
                 if waiting then (Inr False, s)
                 else
                   (let original_available = available s;
                        original_allocation = allocation s;
                        original_need = need s
                    in case py_for [0..<num_resources s] (allocate_step thread_id request) s of
                         (Inl e, s1) \<Rightarrow> (Inl e, s1)
                       | (Inr u, s1) \<Rightarrow>
                           (case is_safe s1 of
                              Inl e \<Rightarrow> (Inl e, s1)
                            | Inr (safe, safe_sequence) \<Rightarrow>
                                if \<not> safe then
                                  (Inr False,
                                   s1\<lparr>available := original_available,
                                      allocation := original_allocation,
                                      need := original_need\<rparr>)
                                else (Inr True, s1)))))"

text \<open>
  One round of the release loop:
  \<^verbatim>\<open>self.available[i] += release[i]\<close>,
  \<^verbatim>\<open>self.allocation[thread_id][i] -= release[i]\<close>,
  \<^verbatim>\<open>self.need[thread_id][i] += release[i]\<close>.
\<close>

definition release_step :: "int \<Rightarrow> int list \<Rightarrow> banker \<Rightarrow> nat \<Rightarrow> (py_error + unit) \<times> banker" where
  "release_step thread_id release s i =
     (case py_get (available s) (int i) of Inl e \<Rightarrow> (Inl e, s)
      | Inr av \<Rightarrow>
          (case py_get release (int i) of Inl e \<Rightarrow> (Inl e, s)
           | Inr r \<Rightarrow>
               (let s1 = s\<lparr>available := (available s)[i := av + r]\<rparr> in
                case row_add s1 (allocation s1) thread_id i (- r) of Inl e \<Rightarrow> (Inl e, s1)
                | Inr s2 \<Rightarrow>
                    (case row_add s2 (need s2) thread_id i r of Inl e \<Rightarrow> (Inl e, s2)
                     | Inr s3 \<Rightarrow> (Inr (), s3)))))"

text \<open>\<^verbatim>\<open>release_resources\<close>: the loop and nothing else; it returns \<^verbatim>\<open>None\<close>.\<close>

definition release_resources :: "banker \<Rightarrow> int \<Rightarrow> int list \<Rightarrow> (py_error + unit) \<times> banker" where
  "release_resources s thread_id release =
     py_for [0..<num_resources s] (release_step thread_id release) s"

subsection \<open>What a caller observes of a ledger\<close>

definition allocation_rows :: "banker \<Rightarrow> int list list" where
  "allocation_rows s = map (heap s) (allocation s)"

definition need_rows :: "banker \<Rightarrow> int list list" where
  "need_rows s = map (heap s) (need s)"

text \<open>
  A ledger built from given tables, laid out as the constructor lays its own out: the
  allocation rows at the first addresses, the need rows after them.
\<close>

definition ledger :: "nat \<Rightarrow> nat \<Rightarrow> int list \<Rightarrow> int list list \<Rightarrow> int list list \<Rightarrow> int list list \<Rightarrow> banker" where
  "ledger nr nt avail mx alloc nd =
     \<lparr>num_resources = nr, num_threads = nt, available = avail, max_rows = mx,
      allocation = [0..<length alloc],
      need = [length alloc..<length alloc + length nd],
      heap = store_rows (length alloc) nd (store_rows 0 alloc (\<lambda>a. []))\<rparr>"


section \<open>deadlockdetection.py: class DeadlockDetector\<close>

text \<open>
  \<^verbatim>\<open>resource_status[r]\<close> is the thread that took resource \<open>r\<close> or \<^verbatim>\<open>None\<close>,
  \<^verbatim>\<open>thread_locks[t]\<close> the one resource recorded for thread \<open>t\<close> or \<^verbatim>\<open>None\<close>, and
  \<^verbatim>\<open>waiting_threads\<close> a dictionary from the thread numbers to sets of resources. A set is
  kept as the duplicate-free list of its elements in the order the \<^verbatim>\<open>for\<close> loop visits
  them; Python does not specify that order, and \<open>set_add\<close> puts a new element last.
  (The two counts carry a suffix here, the ledger's record having fields of the same
  names.)
\<close>

record detector =
  num_resources_d :: nat
  num_threads_d :: nat
  resource_status :: "int option list"
  thread_locks :: "int option list"
  waiting_threads :: "int \<Rightarrow> int list option"

definition set_add :: "int list \<Rightarrow> int \<Rightarrow> int list" where
  "set_add xs x = (if x \<in> set xs then xs else xs @ [x])"

text \<open>\<^verbatim>\<open>__init__\<close>\<close>

definition detector_init :: "nat \<Rightarrow> nat \<Rightarrow> detector" where
  "detector_init nr nt =
     \<lparr>num_resources_d = nr, num_threads_d = nt,
      resource_status = replicate nr None,
      thread_locks = replicate nt None,
      waiting_threads = (\<lambda>i. if 0 \<le> i \<and> i < int nt then Some [] else None)\<rparr>"

text \<open>
  \<^verbatim>\<open>request_resource\<close>. The two assignments of the first branch are separate statements:
  when the second raises, the first has happened.
\<close>

definition request_resource :: "detector \<Rightarrow> int \<Rightarrow> int \<Rightarrow> (py_error + unit) \<times> detector" where
  "request_resource s thread_id resource_id =
     (case py_get (resource_status s) resource_id of
        Inl e \<Rightarrow> (Inl e, s)
      | Inr None \<Rightarrow>
          (case py_set (resource_status s) resource_id (Some thread_id) of
             Inl e \<Rightarrow> (Inl e, s)
           | Inr status \<Rightarrow>
               (let s1 = s\<lparr>resource_status := status\<rparr> in
                case py_set (thread_locks s1) thread_id (Some resource_id) of
                  Inl e \<Rightarrow> (Inl e, s1)
                | Inr locks \<Rightarrow> (Inr (), s1\<lparr>thread_locks := locks\<rparr>)))
      | Inr (Some holder) \<Rightarrow>
          (case waiting_threads s thread_id of
             None \<Rightarrow> (Inl KeyError, s)
           | Some w \<Rightarrow>
               (Inr (), s\<lparr>waiting_threads :=
                            (waiting_threads s)(thread_id \<mapsto> set_add w resource_id)\<rparr>)))"

text \<open>
  \<^verbatim>\<open>release_resource\<close>: the test reads the thread's lock record, not the resource's
  status; there is no \<^verbatim>\<open>else\<close> branch, and \<^verbatim>\<open>waiting_threads\<close> is not touched.
\<close>

definition release_resource :: "detector \<Rightarrow> int \<Rightarrow> int \<Rightarrow> (py_error + unit) \<times> detector" where
  "release_resource s thread_id resource_id =
     (case py_get (thread_locks s) thread_id of
        Inl e \<Rightarrow> (Inl e, s)
      | Inr lock \<Rightarrow>
          if lock = Some resource_id then
            (case py_set (resource_status s) resource_id None of
               Inl e \<Rightarrow> (Inl e, s)
             | Inr status \<Rightarrow>
                 (let s1 = s\<lparr>resource_status := status\<rparr> in
                  case py_set (thread_locks s1) thread_id None of
                    Inl e \<Rightarrow> (Inl e, s1)
                  | Inr locks \<Rightarrow> (Inr (), s1\<lparr>thread_locks := locks\<rparr>)))
          else (Inr (), s))"

subsection \<open>check_deadlock\<close>

text \<open>
  The two local lists \<^verbatim>\<open>visited\<close> and \<^verbatim>\<open>rec_stack\<close>, which the nested function
  \<^verbatim>\<open>is_deadlock\<close> updates in place.
\<close>

record marks =
  visited :: "bool list"
  rec_stack :: "bool list"

text \<open>
  \<^verbatim>\<open>is_deadlock\<close> calls itself from inside its two loops. The first argument bounds the
  depth of these calls: \<open>None\<close> is the bound reached. \<open>for_resources\<close> is the loop
  \<^verbatim>\<open>for resource in self.waiting_threads[thread_id]\<close> and \<open>for_threads\<close> the loop
  \<^verbatim>\<open>for other_thread, other_resource in enumerate(self.thread_locks)\<close>; a loop returns
  \<open>True\<close> where the source returns from inside it, and \<open>False\<close> where it runs out.
  After a call \<^verbatim>\<open>is_deadlock(other_thread)\<close> that returned \<^verbatim>\<open>False\<close> the \<^verbatim>\<open>elif\<close> is
  evaluated, on the lists as the call has left them.
\<close>

fun is_deadlock :: "nat \<Rightarrow> detector \<Rightarrow> nat \<Rightarrow> marks \<Rightarrow> (py_error + bool \<times> marks) option"
  and for_resources :: "nat \<Rightarrow> detector \<Rightarrow> nat \<Rightarrow> int list \<Rightarrow> marks \<Rightarrow> (py_error + bool \<times> marks) option"
  and for_threads :: "nat \<Rightarrow> detector \<Rightarrow> nat \<Rightarrow> int \<Rightarrow> (nat \<times> int option) list \<Rightarrow> marks
    \<Rightarrow> (py_error + bool \<times> marks) option"
  where
  "is_deadlock 0 s thread_id m = None"
| "is_deadlock (Suc depth) s thread_id m =
     (case py_set (visited m) (int thread_id) True of
        Inl e \<Rightarrow> Some (Inl e)
      | Inr vis \<Rightarrow>
          (case py_set (rec_stack m) (int thread_id) True of
             Inl e \<Rightarrow> Some (Inl e)
           | Inr stk \<Rightarrow>
               (case waiting_threads s (int thread_id) of
                  None \<Rightarrow> Some (Inl KeyError)
                | Some w \<Rightarrow>
                    (case for_resources depth s thread_id w \<lparr>visited = vis, rec_stack = stk\<rparr> of
                       None \<Rightarrow> None
                     | Some (Inl e) \<Rightarrow> Some (Inl e)
                     | Some (Inr (found, m')) \<Rightarrow>
                         if found then Some (Inr (True, m'))
                         else
                           (case py_set (rec_stack m') (int thread_id) False of
                              Inl e \<Rightarrow> Some (Inl e)
                            | Inr stk' \<Rightarrow> Some (Inr (False, m'\<lparr>rec_stack := stk'\<rparr>)))))))"
| "for_resources depth s thread_id [] m = Some (Inr (False, m))"
| "for_resources depth s thread_id (resource # rest) m =
     (case for_threads depth s thread_id resource (enumerate 0 (thread_locks s)) m of
        None \<Rightarrow> None
      | Some (Inl e) \<Rightarrow> Some (Inl e)
      | Some (Inr (found, m')) \<Rightarrow>
          if found then Some (Inr (True, m'))
          else for_resources depth s thread_id rest m')"
| "for_threads depth s thread_id resource [] m = Some (Inr (False, m))"
| "for_threads depth s thread_id resource ((other_thread, other_resource) # rest) m =
     (if other_thread \<noteq> thread_id \<and> other_resource = Some resource then
        (case py_get (visited m) (int other_thread) of
           Inl e \<Rightarrow> Some (Inl e)
         | Inr seen \<Rightarrow>
             if \<not> seen then
               (case is_deadlock depth s other_thread m of
                  None \<Rightarrow> None
                | Some (Inl e) \<Rightarrow> Some (Inl e)
                | Some (Inr (found, m')) \<Rightarrow>
                    if found then Some (Inr (True, m'))
                    else
                      (case py_get (rec_stack m') (int other_thread) of
                         Inl e \<Rightarrow> Some (Inl e)
                       | Inr on_stack \<Rightarrow>
                           if on_stack then Some (Inr (True, m'))
                           else for_threads depth s thread_id resource rest m'))
             else
               (case py_get (rec_stack m) (int other_thread) of
                  Inl e \<Rightarrow> Some (Inl e)
                | Inr on_stack \<Rightarrow>
                    if on_stack then Some (Inr (True, m))
                    else for_threads depth s thread_id resource rest m))
      else for_threads depth s thread_id resource rest m)"

text \<open>
  The loop \<^verbatim>\<open>for thread_id in range(self.num_threads)\<close> of \<^verbatim>\<open>check_deadlock\<close>.
\<close>

fun check_loop :: "nat \<Rightarrow> detector \<Rightarrow> nat list \<Rightarrow> marks \<Rightarrow> (py_error + bool) option" where
  "check_loop depth s [] m = Some (Inr False)"
| "check_loop depth s (thread_id # rest) m =
     (case py_get (visited m) (int thread_id) of
        Inl e \<Rightarrow> Some (Inl e)
      | Inr seen \<Rightarrow>
          if \<not> seen then
            (case is_deadlock depth s thread_id m of
               None \<Rightarrow> None
             | Some (Inl e) \<Rightarrow> Some (Inl e)
             | Some (Inr (found, m')) \<Rightarrow>
                 if found then Some (Inr True) else check_loop depth s rest m')
          else check_loop depth s rest m)"

text \<open>
  \<^verbatim>\<open>check_deadlock\<close>, with as many nested calls allowed as there are threads (each call
  is on a thread not visited before). The interpreter's own recursion limit is not
  modelled.
\<close>

definition check_deadlock :: "detector \<Rightarrow> (py_error + bool) option" where
  "check_deadlock s =
     check_loop (num_threads_d s) s [0..<num_threads_d s]
       \<lparr>visited = replicate (num_threads_d s) False,
        rec_stack = replicate (num_threads_d s) False\<rparr>"

section \<open>Notions the statements about the ledger use\<close>

text \<open>
  A ledger is well formed when its tables have the shape the counts announce and its
  rows are separate objects, as \<^verbatim>\<open>__init__\<close> and \<^verbatim>\<open>calculate_need\<close> build them.
\<close>

definition wf_banker :: "banker \<Rightarrow> bool" where
  "wf_banker s \<longleftrightarrow>
     length (available s) = num_resources s \<and>
     length (allocation s) = num_threads s \<and>
     length (need s) = num_threads s \<and>
     list_all (\<lambda>a. length (heap s a) = num_resources s) (allocation s @ need s) \<and>
     distinct (allocation s @ need s)"

text \<open>A row whose first \<open>m\<close> entries have the entries of \<open>d\<close> added.\<close>

definition shifted :: "nat \<Rightarrow> int list \<Rightarrow> int list \<Rightarrow> int list" where
  "shifted m row d = map (\<lambda>j. if j < m then row ! j + d ! j else row ! j) [0..<length row]"

text \<open>
  The ledger after the first \<open>m\<close> rounds of the allocation loop for the thread whose
  rows are the \<open>k\<close>-th ones: \<open>req\<close> has left \<open>available\<close> and the need row and has
  entered the allocation row.
\<close>

definition transfer :: "banker \<Rightarrow> nat \<Rightarrow> int list \<Rightarrow> nat \<Rightarrow> banker" where
  "transfer s k req m =
     s\<lparr>available := shifted m (available s) (map uminus req),
       heap := (heap s)
         (allocation s ! k := shifted m (heap s (allocation s ! k)) req,
          need s ! k := shifted m (heap s (need s ! k)) (map uminus req))\<rparr>"

text \<open>
  The safety check in the words of its description. Actor \<open>i\<close> fits when its need row
  is component-wise at most the work vector; the work vector after the actors of \<open>seq\<close>
  have finished is \<open>available\<close> plus their allocation rows; an actor qualifies when it
  is unfinished and fits; the lowest qualifying actor is the one a scan from index 0
  meets first; a sequence is greedy when each of its entries is the lowest qualifying
  actor after the entries before it.
\<close>

definition fits :: "banker \<Rightarrow> int list \<Rightarrow> nat \<Rightarrow> bool" where
  "fits s work i \<longleftrightarrow> list_all2 (\<le>) (need_rows s ! i) work"

definition work_after :: "banker \<Rightarrow> nat list \<Rightarrow> int list" where
  "work_after s seq = foldl (\<lambda>w i. map2 (+) w (allocation_rows s ! i)) (available s) seq"

definition qualifies :: "banker \<Rightarrow> nat list \<Rightarrow> nat \<Rightarrow> bool" where
  "qualifies s seq i \<longleftrightarrow> i < num_threads s \<and> i \<notin> set seq \<and> fits s (work_after s seq) i"

definition lowest_qualifying :: "banker \<Rightarrow> nat list \<Rightarrow> nat \<Rightarrow> bool" where
  "lowest_qualifying s seq i \<longleftrightarrow>
     qualifies s seq i \<and> list_all (\<lambda>i'. \<not> qualifies s seq i') [0..<i]"

definition greedy :: "banker \<Rightarrow> nat list \<Rightarrow> bool" where
  "greedy s seq \<longleftrightarrow>
     list_all (\<lambda>k. lowest_qualifying s (take k seq) (seq ! k)) [0..<length seq]"

text \<open>What holds of the three local variables of \<^verbatim>\<open>is_safe\<close> at the head of its loop.\<close>

definition loop_inv :: "banker \<Rightarrow> int list \<Rightarrow> bool list \<Rightarrow> nat list \<Rightarrow> bool" where
  "loop_inv s work finish seq \<longleftrightarrow>
     work = work_after s seq \<and> length work = num_resources s \<and>
     length finish = num_threads s \<and>
     (\<forall>i<num_threads s. finish ! i \<longleftrightarrow> i \<in> set seq) \<and>
     distinct seq \<and> set seq \<subseteq> {0..<num_threads s} \<and> greedy s seq"

text \<open>The units of class \<open>c\<close> in the ledger: the available ones and the allocated ones.\<close>

definition class_total :: "banker \<Rightarrow> nat \<Rightarrow> int" where
  "class_total s c = available s ! c + sum_list (map (\<lambda>row. row ! c) (allocation_rows s))"

text \<open>
  Three ledgers: the one \<^verbatim>\<open>BankersAlgorithm(num_resources=3, num_threads=3)\<close> builds,
  the snapshot of the classic example, and a small safe one.
\<close>

definition demo_ledger :: banker where
  "demo_ledger = ledger 3 3 [3, 3, 3] [[7, 5, 3], [3, 2, 2], [9, 0, 2]]
     [[0, 0, 0], [0, 0, 0], [0, 0, 0]] [[7, 5, 3], [3, 2, 2], [9, 0, 2]]"

definition scenario_A :: banker where
  "scenario_A = ledger 3 3 [3, 3, 2] [[7, 5, 3], [3, 2, 2], [9, 0, 2]]
     [[0, 1, 0], [2, 0, 0], [3, 0, 2]] [[7, 4, 3], [1, 2, 2], [6, 0, 0]]"

definition two_actor_ledger :: banker where
  "two_actor_ledger = ledger 2 2 [3, 2] [[3, 2], [2, 2]] [[1, 0], [0, 1]] [[2, 2], [2, 1]]"

section \<open>Notions the statements about the detector use\<close>

text \<open>
  A detector is well formed when its two lists have the lengths the counts announce and
  every thread number is a key of \<^verbatim>\<open>waiting_threads\<close>, as \<^verbatim>\<open>__init__\<close> builds them; no
  method changes a length or a key.
\<close>

definition wf_detector :: "detector \<Rightarrow> bool" where
  "wf_detector s \<longleftrightarrow>
     length (resource_status s) = num_resources_d s \<and>
     length (thread_locks s) = num_threads_d s \<and>
     list_all (\<lambda>t. waiting_threads s (int t) \<noteq> None) [0..<num_threads_d s]"

text \<open>
  A caller's sequence of calls. A call that raises leaves the detector as the exception
  found it, and the next call works on that.
\<close>

datatype call = Request int int | Release int int

fun apply_call :: "detector \<Rightarrow> call \<Rightarrow> detector" where
  "apply_call s (Request thread_id resource_id) = snd (request_resource s thread_id resource_id)"
| "apply_call s (Release thread_id resource_id) = snd (release_resource s thread_id resource_id)"

definition run_calls :: "detector \<Rightarrow> call list \<Rightarrow> detector" where
  "run_calls s calls = foldl apply_call s calls"

text \<open>
  A lock record denotes slot \<open>j\<close> of \<^verbatim>\<open>resource_status\<close> when indexing with it reaches that
  slot; a slot is unrecorded when no thread's record denotes it, and leaked to thread
  \<open>t\<close> when it is marked as taken by \<open>t\<close> and unrecorded.
\<close>

definition denotes :: "nat \<Rightarrow> int option \<Rightarrow> nat \<Rightarrow> bool" where
  "denotes n lock j \<longleftrightarrow> (case lock of None \<Rightarrow> False | Some r \<Rightarrow> py_index n r = Inr j)"

definition unrecorded :: "detector \<Rightarrow> nat \<Rightarrow> bool" where
  "unrecorded s j \<longleftrightarrow>
     list_all (\<lambda>lock. \<not> denotes (length (resource_status s)) lock j) (thread_locks s)"

definition leaked :: "detector \<Rightarrow> nat \<Rightarrow> int \<Rightarrow> bool" where
  "leaked s j t \<longleftrightarrow>
     j < length (resource_status s) \<and> resource_status s ! j = Some t \<and> unrecorded s j"

text \<open>
  The wait-for graph as \<^verbatim>\<open>is_deadlock\<close> reads it: thread \<open>a\<close> points to another thread
  \<open>b\<close> when the lock record of \<open>b\<close> is a resource of the waiting set of \<open>a\<close>.
\<close>

definition waiting_of :: "detector \<Rightarrow> nat \<Rightarrow> int list" where
  "waiting_of s a = (case waiting_threads s (int a) of None \<Rightarrow> [] | Some w \<Rightarrow> w)"

definition lock_graph :: "detector \<Rightarrow> (nat \<times> nat) set" where
  "lock_graph s =
     {(a, b). a < num_threads_d s \<and> b < num_threads_d s \<and> b \<noteq> a \<and>
              (\<exists>r\<in>set (waiting_of s a). thread_locks s ! b = Some r)}"

text \<open>
  The wait-for graph derived from the held map: \<open>a\<close> points to another thread \<open>b\<close>
  when a resource of the waiting set of \<open>a\<close> is held by \<open>b\<close>. The holder of a resource
  is what \<^verbatim>\<open>self.resource_status[resource_id]\<close> gives, as \<^verbatim>\<open>request_resource\<close> reads it:
  a negative number counts from the end, and a number out of range has no holder.
\<close>

definition held :: "detector \<Rightarrow> int \<Rightarrow> int option" where
  "held s r = (case py_get (resource_status s) r of Inl e \<Rightarrow> None | Inr holder \<Rightarrow> holder)"

definition wait_for :: "detector \<Rightarrow> (nat \<times> nat) set" where
  "wait_for s =
     {(a, b). a < num_threads_d s \<and> b < num_threads_d s \<and> a \<noteq> b \<and>
              (\<exists>r\<in>set (waiting_of s a). held s r = Some (int b))}"

text \<open>
  A graph has a cycle when some node reaches itself along at least one edge.
\<close>

definition has_cycle :: "(nat \<times> nat) set \<Rightarrow> bool" where
  "has_cycle E \<longleftrightarrow> (\<exists>a. (a, a) \<in> E\<^sup>+)"

text \<open>
  The depth-first search in terms of sets: the threads marked in \<^verbatim>\<open>visited\<close>, those
  marked in \<^verbatim>\<open>rec_stack\<close>, and the finished ones (visited, off the stack). The finished
  threads are settled when no edge leaves them and none of them lies on a cycle.
\<close>

definition seen :: "marks \<Rightarrow> nat set" where
  "seen m = {i. i < length (visited m) \<and> visited m ! i}"

definition stacked :: "marks \<Rightarrow> nat set" where
  "stacked m = {i. i < length (rec_stack m) \<and> rec_stack m ! i}"

definition finished :: "marks \<Rightarrow> nat set" where
  "finished m = seen m - stacked m"

definition wf_marks :: "detector \<Rightarrow> marks \<Rightarrow> bool" where
  "wf_marks s m \<longleftrightarrow>
     length (visited m) = num_threads_d s \<and> length (rec_stack m) = num_threads_d s \<and>
     stacked m \<subseteq> seen m"

definition settled :: "(nat \<times> nat) set \<Rightarrow> marks \<Rightarrow> bool" where
  "settled E m \<longleftrightarrow> E `` finished m \<subseteq> finished m \<and> (\<forall>x\<in>finished m. (x, x) \<notin> E\<^sup>+)"

text \<open>
  What a call of \<^verbatim>\<open>is_deadlock\<close> or a run of one of its loops may rely on and what it
  establishes: it returns; when it returns \<open>True\<close> the graph has a cycle; when it
  returns \<open>False\<close> the stack is as before, nothing visited is forgotten, the finished
  threads are settled and the threads of \<open>D\<close> are among them.
\<close>

definition dfs_pre :: "detector \<Rightarrow> nat \<Rightarrow> marks \<Rightarrow> bool" where
  "dfs_pre s depth m \<longleftrightarrow>
     wf_marks s m \<and> settled (lock_graph s) m \<and>
     card ({0..<num_threads_d s} - seen m) \<le> depth"

definition dfs_post :: "detector \<Rightarrow> marks \<Rightarrow> nat set \<Rightarrow> (py_error + bool \<times> marks) option \<Rightarrow> bool" where
  "dfs_post s m D res \<longleftrightarrow>
     (\<exists>found m'. res = Some (Inr (found, m')) \<and>
        (if found then has_cycle (lock_graph s)
         else wf_marks s m' \<and> stacked m' = stacked m \<and> seen m \<subseteq> seen m' \<and>
              settled (lock_graph s) m' \<and> D \<subseteq> finished m'))"


definition scenario_B :: detector where
  "scenario_B = run_calls (detector_init 2 2) [Request 0 0, Request 1 1, Request 0 1, Request 1 0]"

definition two_acquired :: detector where
  "two_acquired = run_calls (detector_init 2 2) [Request 0 0, Request 0 1]"

definition two_locks_state :: detector where
  "two_locks_state = run_calls (detector_init 3 2)
     [Request 0 0, Request 0 1, Request 1 2, Request 0 2, Request 1 0]"

text \<open>
  Scenario B again, with each thread asking for the other's resource under the negative
  number that indexes the same slot.
\<close>

definition alias_state :: detector where
  "alias_state = run_calls (detector_init 2 2)
     [Request 0 0, Request 1 1, Request 0 (- 1), Request 1 (- 2)]"

section \<open>The ledger: closed forms of the loops\<close>

subsection \<open>Indexing and the loop combinators\<close>

lemma py_get_nat: "i < length xs \<Longrightarrow> py_get xs (int i) = Inr (xs ! i)"
  by (simp add: py_get_def py_index_def)

lemma py_get_nat_out: "\<not> i < length xs \<Longrightarrow> py_get xs (int i) = Inl IndexError"
  by (simp add: py_get_def py_index_def)

lemma py_index_less: "py_index n t = Inr k \<Longrightarrow> k < n"
  by (auto simp: py_index_def Let_def split: if_splits)

lemma py_get_index: "py_index (length xs) t = Inr k \<Longrightarrow> py_get xs t = Inr (xs ! k)"
  by (simp add: py_get_def)

lemma py_for_snoc:
  "py_for (xs @ [x]) body s =
     (case py_for xs body s of (Inl e, s') \<Rightarrow> (Inl e, s') | (Inr u, s') \<Rightarrow> body s' x)"
  by (induction xs arbitrary: s) (auto split: prod.splits sum.splits)

lemma py_any_total:
  "(\<And>x. x \<in> set xs \<Longrightarrow> f x = Inr (P x)) \<Longrightarrow> py_any f xs = Inr (\<exists>x\<in>set xs. P x)"
  by (induction xs) auto

lemma py_all_total:
  "(\<And>x. x \<in> set xs \<Longrightarrow> f x = Inr (P x)) \<Longrightarrow> py_all f xs = Inr (\<forall>x\<in>set xs. P x)"
  by (induction xs) auto

subsection \<open>The allocation and release loops\<close>

lemma length_shifted [simp]: "length (shifted m row d) = length row"
  by (simp add: shifted_def)

lemma shifted_0 [simp]: "shifted 0 row d = row"
  by (simp add: shifted_def map_nth)

lemma shifted_Suc:
  "m < length row \<Longrightarrow> (shifted m row d)[m := shifted m row d ! m + d ! m] = shifted (Suc m) row d"
  by (rule nth_equalityI) (auto simp: shifted_def nth_list_update less_Suc_eq)

lemma shifted_all:
  "length row \<le> length d \<Longrightarrow> shifted (length row) row d = map2 (+) row d"
  by (rule nth_equalityI) (auto simp: shifted_def)

lemma transfer_0: "transfer s k req 0 = s"
  by (simp add: transfer_def)

lemma wf_rows:
  assumes "wf_banker s" "k < num_threads s"
  shows "length (heap s (allocation s ! k)) = num_resources s"
    and "length (heap s (need s ! k)) = num_resources s"
    and "allocation s ! k \<noteq> need s ! k"
proof -
  have a: "allocation s ! k \<in> set (allocation s)" and n: "need s ! k \<in> set (need s)"
    using assms by (simp_all add: wf_banker_def)
  have all: "\<forall>a\<in>set (allocation s) \<union> set (need s). length (heap s a) = num_resources s"
    and disj: "set (allocation s) \<inter> set (need s) = {}"
    using assms(1) by (simp_all add: wf_banker_def list_all_iff)
  show "length (heap s (allocation s ! k)) = num_resources s"
    using all a by blast
  show "length (heap s (need s ! k)) = num_resources s"
    using all n by blast
  show "allocation s ! k \<noteq> need s ! k"
    using disj a n by (metis disjoint_iff)
qed

lemma allocate_step_transfer:
  assumes wf: "wf_banker s" and k: "py_index (num_threads s) t = Inr k"
    and m: "m < num_resources s" and len: "num_resources s \<le> length req"
  shows "allocate_step t req (transfer s k req m) m = (Inr (), transfer s k req (Suc m))"
proof -
  have kn: "k < num_threads s" using k by (rule py_index_less)
  note rows = wf_rows[OF wf kn]
  have la: "length (allocation s) = num_threads s" "length (need s) = num_threads s"
    "length (available s) = num_resources s"
    using wf by (auto simp: wf_banker_def)
  have ga: "py_get (allocation s) t = Inr (allocation s ! k)"
    "py_get (need s) t = Inr (need s ! k)"
    using k la by (simp_all add: py_get_index)
  have mreq: "m < length req" using m len by simp
  show ?thesis
    using m mreq rows ga la
    by (simp add: allocate_step_def transfer_def row_add_def py_get_nat Let_def
        shifted_Suc[symmetric] fun_upd_twist)
qed

lemma allocate_loop_transfer:
  assumes wf: "wf_banker s" and k: "py_index (num_threads s) t = Inr k"
    and len: "num_resources s \<le> length req"
  shows "m \<le> num_resources s \<Longrightarrow>
    py_for [0..<m] (allocate_step t req) s = (Inr (), transfer s k req m)"
proof (induction m)
  case 0
  show ?case by (simp add: transfer_0)
next
  case (Suc m)
  then show ?case
    by (simp add: py_for_snoc allocate_step_transfer[OF wf k _ len])
qed

lemma release_step_allocate:
  "release_step t rel s i = allocate_step t (map uminus rel) s i"
proof (cases "i < length rel")
  case True
  then show ?thesis
    by (simp add: release_step_def allocate_step_def py_get_nat Let_def split: sum.splits)
next
  case False
  then show ?thesis
    by (simp add: release_step_def allocate_step_def py_get_nat_out split: sum.splits)
qed

lemma release_resources_allocate:
  "release_resources s t rel = py_for [0..<num_resources s] (allocate_step t (map uminus rel)) s"
proof -
  have "release_step t rel = allocate_step t (map uminus rel)"
    by (intro ext) (rule release_step_allocate)
  then show ?thesis by (simp add: release_resources_def)
qed

lemma transfer_fields [simp]:
  "num_resources (transfer s k req m) = num_resources s"
  "num_threads (transfer s k req m) = num_threads s"
  "allocation (transfer s k req m) = allocation s"
  "need (transfer s k req m) = need s"
  "max_rows (transfer s k req m) = max_rows s"
  by (simp_all add: transfer_def)

lemma wf_nth_neq:
  assumes "wf_banker s" "k < num_threads s" "j < num_threads s"
  shows "allocation s ! j = allocation s ! k \<longleftrightarrow> j = k"
    and "need s ! j = need s ! k \<longleftrightarrow> j = k"
    and "allocation s ! j \<noteq> need s ! k"
proof -
  have d: "distinct (allocation s)" "distinct (need s)"
    and disj: "set (allocation s) \<inter> set (need s) = {}"
    and l: "length (allocation s) = num_threads s" "length (need s) = num_threads s"
    using assms(1) by (simp_all add: wf_banker_def)
  show "allocation s ! j = allocation s ! k \<longleftrightarrow> j = k"
    using d l assms by (simp add: nth_eq_iff_index_eq)
  show "need s ! j = need s ! k \<longleftrightarrow> j = k"
    using d l assms by (simp add: nth_eq_iff_index_eq)
  have "allocation s ! j \<in> set (allocation s)" "need s ! k \<in> set (need s)"
    using l assms by simp_all
  then show "allocation s ! j \<noteq> need s ! k"
    using disj by (metis disjoint_iff)
qed

lemma transfer_available:
  "available (transfer s k req m) = shifted m (available s) (map uminus req)"
  by (simp add: transfer_def)

lemma transfer_allocation_rows:
  assumes "wf_banker s" "k < num_threads s"
  shows "allocation_rows (transfer s k req m) =
    (allocation_rows s)[k := shifted m (allocation_rows s ! k) req]"
proof (rule nth_equalityI)
  show "length (allocation_rows (transfer s k req m)) =
    length ((allocation_rows s)[k := shifted m (allocation_rows s ! k) req])"
    by (simp add: allocation_rows_def)
next
  fix j assume "j < length (allocation_rows (transfer s k req m))"
  then have j: "j < num_threads s" "j < length (allocation s)"
    using assms(1) by (simp_all add: allocation_rows_def wf_banker_def)
  have kl: "k < length (allocation s)" using assms by (simp add: wf_banker_def)
  show "allocation_rows (transfer s k req m) ! j =
    (allocation_rows s)[k := shifted m (allocation_rows s ! k) req] ! j"
    using j kl wf_nth_neq[OF assms j(1)]
    by (simp add: allocation_rows_def transfer_def nth_list_update)
qed


lemma wf_transfer:
  assumes "wf_banker s" "k < num_threads s"
  shows "wf_banker (transfer s k req m)"
proof -
  have "\<And>a. length (heap (transfer s k req m) a) = length (heap s a)"
    by (simp add: transfer_def)
  then show ?thesis
    using assms(1) by (simp add: wf_banker_def transfer_available)
qed


lemma shifted_zero:
  "shifted m row (replicate n 0) = row" if "length row \<le> n"
  using that by (intro nth_equalityI) (auto simp: shifted_def)


lemma transfer_zero:
  assumes wf: "wf_banker s" and k: "k < num_threads s"
  shows "transfer s k (replicate (num_resources s) 0) m = s"
proof -
  note rows = wf_rows[OF wf k]
  have z: "map uminus (replicate (num_resources s) (0::int)) = replicate (num_resources s) 0"
    by simp
  have av: "length (available s) = num_resources s" using wf by (simp add: wf_banker_def)
  show ?thesis
    using rows av by (simp add: transfer_def shifted_zero)
qed

subsection \<open>The safety check\<close>

lemma need_le_work_total:
  assumes "wf_banker s" "i < num_threads s" "length work = num_resources s" "j < num_resources s"
  shows "need_le_work s work i j = Inr (need_rows s ! i ! j \<le> work ! j)"
proof -
  have "length (need s) = num_threads s" using assms(1) by (simp add: wf_banker_def)
  then show ?thesis
    using assms wf_rows(2)[OF assms(1,2)]
    by (simp add: need_le_work_def row_get_def py_get_nat need_rows_def)
qed

lemma py_all_fits:
  assumes "wf_banker s" "i < num_threads s" "length work = num_resources s"
  shows "py_all (need_le_work s work i) [0..<num_resources s] = Inr (fits s work i)"
proof -
  have l: "length (need_rows s ! i) = num_resources s"
    using assms wf_rows(2)[OF assms(1,2)] by (simp add: need_rows_def wf_banker_def)
  have "py_all (need_le_work s work i) [0..<num_resources s]
      = Inr (\<forall>j\<in>set [0..<num_resources s]. need_rows s ! i ! j \<le> work ! j)"
    by (rule py_all_total) (simp add: need_le_work_total[OF assms])
  also have "(\<forall>j\<in>set [0..<num_resources s]. need_rows s ! i ! j \<le> work ! j) = fits s work i"
    using l assms(3) by (auto simp: fits_def list_all2_conv_all_nth)
  finally show ?thesis .
qed

lemma release_work_shifted:
  assumes wf: "wf_banker s" and i: "i < num_threads s" and lw: "length work = num_resources s"
  shows "m \<le> num_resources s \<Longrightarrow>
    release_work s i (shifted m work (allocation_rows s ! i)) [m..<num_resources s]
      = Inr (shifted (num_resources s) work (allocation_rows s ! i))"
proof (induction "num_resources s - m" arbitrary: m)
  case 0
  then show ?case by simp
next
  case (Suc d)
  then have m: "m < num_resources s" by simp
  have la: "length (allocation s) = num_threads s" using wf by (simp add: wf_banker_def)
  have row: "allocation_rows s ! i = heap s (allocation s ! i)"
    using i la by (simp add: allocation_rows_def)
  have g: "row_get s (allocation s) (int i) m = Inr (allocation_rows s ! i ! m)"
    using i la m wf_rows(1)[OF wf i] by (simp add: row_get_def py_get_nat row)
  have "release_work s i (shifted (Suc m) work (allocation_rows s ! i)) [Suc m..<num_resources s]
      = Inr (shifted (num_resources s) work (allocation_rows s ! i))"
    using Suc.hyps(2) m by (intro Suc.hyps(1)) simp_all
  then show ?case
    using m lw g by (simp add: upt_conv_Cons py_get_nat shifted_Suc)
qed

lemma release_work_total:
  assumes wf: "wf_banker s" and i: "i < num_threads s" and lw: "length work = num_resources s"
  shows "release_work s i work [0..<num_resources s] = Inr (map2 (+) work (allocation_rows s ! i))"
proof -
  have "length (allocation s) = num_threads s" using wf by (simp add: wf_banker_def)
  then have "length (allocation_rows s ! i) = num_resources s"
    using i wf_rows(1)[OF wf i] by (simp add: allocation_rows_def)
  then show ?thesis
    using release_work_shifted[OF assms, of 0] lw shifted_all[of work "allocation_rows s ! i"]
    by simp
qed

lemma scan_find:
  assumes wf: "wf_banker s" and lw: "length work = num_resources s"
  shows "set js \<subseteq> {0..<num_threads s} \<Longrightarrow>
    scan s work finish js =
      Inr (map_option (\<lambda>i. (i, map2 (+) work (allocation_rows s ! i)))
             (find (\<lambda>i. \<not> finish ! i \<and> fits s work i) js))"
proof (induction js)
  case Nil
  show ?case by simp
next
  case (Cons j js)
  then have j: "j < num_threads s" by simp
  show ?case
    using Cons
    by (simp add: py_all_fits[OF wf j lw] release_work_total[OF wf j lw])
qed

lemma find_upt_Some:
  assumes "find P [0..<n] = Some i"
  shows "i < n" and "P i" and "\<And>j. j < i \<Longrightarrow> \<not> P j"
proof -
  from assms obtain k where k: "k < length [0..<n]" "P ([0..<n] ! k)" "i = [0..<n] ! k"
    "\<forall>j<k. \<not> P ([0..<n] ! j)"
    unfolding find_Some_iff by blast
  then have ik: "i = k" "k < n" by simp_all
  show "i < n" using ik by simp
  show "P i" using k ik by simp
  show "\<not> P j" if "j < i" for j
  proof -
    have "j < k" using that ik by simp
    moreover from this have "[0..<n] ! j = j" using ik by simp
    ultimately show ?thesis using k(4) by metis
  qed
qed

lemma find_upt_None:
  assumes "find P [0..<n] = None" "i < n"
  shows "\<not> P i"
  using assms by (simp add: find_None_iff)

lemma greedy_snoc:
  assumes "greedy s seq" "lowest_qualifying s seq i"
  shows "greedy s (seq @ [i])"
  using assms by (simp add: greedy_def list_all_iff nth_append)

lemma loop_inv_step:
  assumes wf: "wf_banker s" and inv: "loop_inv s work finish seq"
    and f: "find (\<lambda>i. \<not> finish ! i \<and> fits s work i) [0..<num_threads s] = Some i"
  shows "loop_inv s (map2 (+) work (allocation_rows s ! i)) (finish[i := True]) (seq @ [i])"
proof -
  note fi = find_upt_Some[OF f]
  have i: "i < num_threads s" and nf: "\<not> finish ! i" and fit: "fits s work i"
    using fi by simp_all
  have w: "work = work_after s seq" and lw: "length work = num_resources s"
    and lf: "length finish = num_threads s"
    and fin: "\<And>j. j < num_threads s \<Longrightarrow> finish ! j \<longleftrightarrow> j \<in> set seq"
    and d: "distinct seq" and sub: "set seq \<subseteq> {0..<num_threads s}" and g: "greedy s seq"
    using inv unfolding loop_inv_def by blast+
  have inotin: "i \<notin> set seq" using fin[OF i] nf by simp
  have q: "qualifies s seq i" using i inotin fit w by (simp add: qualifies_def)
  have low: "\<not> qualifies s seq j" if "j < i" for j
  proof -
    have jn: "j < num_threads s" using that i by simp
    have "\<not> (\<not> finish ! j \<and> fits s work j)" using fi(3)[OF that] .
    then show ?thesis using fin[OF jn] w by (auto simp: qualifies_def)
  qed
  have lq: "lowest_qualifying s seq i"
    using q low by (simp add: lowest_qualifying_def list_all_iff)
  have la: "length (allocation s) = num_threads s" using wf by (simp add: wf_banker_def)
  have lr: "length (allocation_rows s ! i) = num_resources s"
    using i la wf_rows(1)[OF wf i] by (simp add: allocation_rows_def)
  have w': "map2 (+) work (allocation_rows s ! i) = work_after s (seq @ [i])"
    using w by (simp add: work_after_def)
  have fin': "(finish[i := True]) ! j \<longleftrightarrow> j \<in> set (seq @ [i])" if "j < num_threads s" for j
    using that fin[OF that] lf i by (cases "j = i") (simp_all add: nth_list_update)
  have lw': "length (map2 (+) work (allocation_rows s ! i)) = num_resources s"
    using lw lr by simp
  have d': "distinct (seq @ [i])" and sub': "set (seq @ [i]) \<subseteq> {0..<num_threads s}"
    using d inotin sub i by simp_all
  have lf': "length (finish[i := True]) = num_threads s" using lf by simp
  show ?thesis
    unfolding loop_inv_def
    using w' lw' lf' fin' d' sub' greedy_snoc[OF g lq] by blast
qed

lemma distinct_full:
  assumes "distinct seq" "set seq \<subseteq> {0..<n}" "n \<le> length seq"
  shows "set seq = {0..<n}"
proof -
  have "card (set seq) = length seq" using assms(1) by (rule distinct_card)
  then have "card {0..<n} \<le> card (set seq)" using assms(3) by simp
  then show ?thesis using assms(2) by (simp add: card_seteq)
qed

lemma safe_loop_greedy:
  "wf_banker s \<Longrightarrow> loop_inv s work finish seq \<Longrightarrow>
    \<exists>b seq'. safe_loop s work finish seq = Inr (b, seq') \<and> greedy s seq' \<and>
      (if b then distinct seq' \<and> set seq' = {0..<num_threads s}
       else length seq' < num_threads s \<and> list_all (\<lambda>i. \<not> qualifies s seq' i) [0..<num_threads s])"
proof (induction s work finish seq rule: safe_loop.induct)
  case (1 s work finish seq)
  note wf = "1.prems"(1) and inv = "1.prems"(2)
  have lw: "length work = num_resources s" and g: "greedy s seq"
    and d: "distinct seq" and sub: "set seq \<subseteq> {0..<num_threads s}"
    and w: "work = work_after s seq"
    and fin: "\<And>j. j < num_threads s \<Longrightarrow> finish ! j \<longleftrightarrow> j \<in> set seq"
    using inv unfolding loop_inv_def by blast+
  have sc: "scan s work finish [0..<num_threads s] =
      Inr (map_option (\<lambda>i. (i, map2 (+) work (allocation_rows s ! i)))
             (find (\<lambda>i. \<not> finish ! i \<and> fits s work i) [0..<num_threads s]))"
    using scan_find[OF wf lw, of "[0..<num_threads s]" finish] by simp
  show ?case
  proof (cases "length seq < num_threads s")
    case False
    then have "set seq = {0..<num_threads s}"
      using d sub by (intro distinct_full) simp_all
    then show ?thesis using False g d
      by (intro exI[of _ True] exI[of _ seq]) simp
  next
    case True
    show ?thesis
    proof (cases "find (\<lambda>i. \<not> finish ! i \<and> fits s work i) [0..<num_threads s]")
      case None
      have "\<not> qualifies s seq i" if "i < num_threads s" for i
        using find_upt_None[OF None that] fin[OF that] w by (auto simp: qualifies_def)
      then show ?thesis
        using True None sc g
        by (intro exI[of _ False] exI[of _ seq]) (simp add: list_all_iff)
    next
      case (Some i)
      have inv': "loop_inv s (map2 (+) work (allocation_rows s ! i)) (finish[i := True]) (seq @ [i])"
        using wf inv Some by (rule loop_inv_step)
      have "\<exists>b seq'. safe_loop s (map2 (+) work (allocation_rows s ! i)) (finish[i := True]) (seq @ [i])
            = Inr (b, seq') \<and> greedy s seq' \<and>
          (if b then distinct seq' \<and> set seq' = {0..<num_threads s}
           else length seq' < num_threads s \<and>
             list_all (\<lambda>i. \<not> qualifies s seq' i) [0..<num_threads s])"
        using True sc Some inv' wf by (intro "1.IH") simp_all
      then show ?thesis
        using True sc Some by simp
    qed
  qed
qed

lemma loop_inv_init:
  assumes "wf_banker s"
  shows "loop_inv s (available s) (replicate (num_threads s) False) []"
  using assms by (simp add: loop_inv_def work_after_def greedy_def wf_banker_def)

lemma is_safe_characterised:
  assumes "wf_banker s"
  shows "\<exists>b seq. is_safe s = Inr (b, seq) \<and> greedy s seq \<and>
      (if b then distinct seq \<and> set seq = {0..<num_threads s}
       else length seq < num_threads s \<and> list_all (\<lambda>i. \<not> qualifies s seq i) [0..<num_threads s])"
  unfolding is_safe_def using assms loop_inv_init[OF assms] by (rule safe_loop_greedy)

subsection \<open>request_resources and release_resources on a well-formed ledger\<close>

lemma py_any_False:
  "py_any f xs = Inr False \<Longrightarrow> x \<in> set xs \<Longrightarrow> f x = Inr False"
  by (induction xs) (auto split: sum.splits if_splits)


lemma exceeds_need_total:
  assumes wf: "wf_banker s" and k: "py_index (num_threads s) t = Inr k"
    and len: "num_resources s \<le> length req" and i: "i < num_resources s"
  shows "exceeds_need s t req i = Inr (need_rows s ! k ! i < req ! i)"
proof -
  have kn: "k < num_threads s" using k by (rule py_index_less)
  have ln: "length (need s) = num_threads s" using wf by (simp add: wf_banker_def)
  have "py_get (need s) t = Inr (need s ! k)" using k ln by (simp add: py_get_index)
  then show ?thesis
    using i len kn ln wf_rows(2)[OF wf kn]
    by (simp add: exceeds_need_def row_get_def py_get_nat need_rows_def)
qed

lemma exceeds_available_total:
  assumes wf: "wf_banker s" and len: "num_resources s \<le> length req" and i: "i < num_resources s"
  shows "exceeds_available s req i = Inr (available s ! i < req ! i)"
proof -
  have "length (available s) = num_resources s" using wf by (simp add: wf_banker_def)
  then show ?thesis using i len by (simp add: exceeds_available_def py_get_nat)
qed

lemma is_safe_total:
  assumes "wf_banker s"
  shows "\<exists>safe seq. is_safe s = Inr (safe, seq)"
  using is_safe_characterised[OF assms] by blast

lemma request_resources_closed:
  assumes wf: "wf_banker s" and k: "py_index (num_threads s) t = Inr k"
    and len: "num_resources s \<le> length req"
    and safe: "is_safe (transfer s k req (num_resources s)) = Inr (safe, seq)"
  shows "request_resources s t req =
    (if (\<exists>i<num_resources s. need_rows s ! k ! i < req ! i) \<or>
        (\<exists>i<num_resources s. available s ! i < req ! i)
     then (Inr False, s)
     else if safe then (Inr True, transfer s k req (num_resources s))
     else (Inr False, (transfer s k req (num_resources s))
            \<lparr>available := available s, allocation := allocation s, need := need s\<rparr>))"
proof -
  have c1: "py_any (exceeds_need s t req) [0..<num_resources s]
      = Inr (\<exists>i\<in>set [0..<num_resources s]. need_rows s ! k ! i < req ! i)"
    by (rule py_any_total) (simp add: exceeds_need_total[OF wf k len])
  have c2: "py_any (exceeds_available s req) [0..<num_resources s]
      = Inr (\<exists>i\<in>set [0..<num_resources s]. available s ! i < req ! i)"
    by (rule py_any_total) (simp add: exceeds_available_total[OF wf len])
  have al: "py_for [0..<num_resources s] (allocate_step t req) s
      = (Inr (), transfer s k req (num_resources s))"
    using allocate_loop_transfer[OF wf k len, of "num_resources s"] by simp
  show ?thesis
    unfolding request_resources_def c1 c2 al
    using safe by (auto simp: Let_def Bex_def)
qed

lemma release_resources_closed:
  assumes wf: "wf_banker s" and k: "py_index (num_threads s) t = Inr k"
    and len: "num_resources s \<le> length rel"
  shows "release_resources s t rel = (Inr (), transfer s k (map uminus rel) (num_resources s))"
  using allocate_loop_transfer[OF wf k, of "map uminus rel" "num_resources s"] len
  by (simp add: release_resources_allocate)

lemma granted_valid:
  assumes wf: "wf_banker s" and pos: "0 < num_resources s"
    and g: "fst (request_resources s t req) = Inr True"
  shows "(\<exists>k. py_index (num_threads s) t = Inr k) \<and> num_resources s \<le> length req"
proof -
  have a: "py_any (exceeds_need s t req) [0..<num_resources s] = Inr False"
    using g by (auto simp: request_resources_def split: sum.splits if_splits)
  have e: "exceeds_need s t req i = Inr False" if "i < num_resources s" for i
    using py_any_False[OF a, of i] that by simp
  have ln: "length (need s) = num_threads s" using wf by (simp add: wf_banker_def)
  have "\<exists>k. py_index (num_threads s) t = Inr k"
    using e[OF pos] ln
    by (auto simp: exceeds_need_def row_get_def py_get_def split: sum.splits)
  moreover have "num_resources s \<le> length req"
  proof (rule ccontr)
    assume "\<not> num_resources s \<le> length req"
    then have l: "length req < num_resources s" by simp
    have "py_get req (int (length req)) = Inl IndexError" by (simp add: py_get_nat_out)
    then show False using e[OF l] by (simp add: exceeds_need_def)
  qed
  ultimately show ?thesis by simp
qed


section \<open>The ledger: the claims\<close>

lemma init_demo_ledger: "init 3 3 = Inr demo_ledger"
  by (simp add: init_def demo_ledger_def ledger_def calculate_need_def row_get_def py_get_def
      py_index_def Let_def upt_conv_Cons eval_nat_numeral)

lemma wf_examples:
  "wf_banker demo_ledger" "wf_banker scenario_A" "wf_banker two_actor_ledger"
  by code_simp+

text \<open>
  Claim C1 says that a request that is not granted leaves \<open>available\<close>, \<open>allocation\<close>
  and \<open>need\<close> as they were, nested rows included. On the ledger the constructor
  builds, thread 0 asking for \<open>[1, 0, 2]\<close> passes both comparisons, is found unsafe and
  is denied; \<open>available\<close> is put back, but the rows of \<open>allocation\<close> and \<open>need\<close> the
  restored lists point to are the ones the allocation loop has written to, so the
  denied amounts stay booked on thread 0.
\<close>

theorem denied_request_keeps_tentative_allocation:
  "init 3 3 = Inr demo_ledger \<and>
   fst (request_resources demo_ledger 0 [1, 0, 2]) = Inr False \<and>
   available demo_ledger = [3, 3, 3] \<and>
   available (snd (request_resources demo_ledger 0 [1, 0, 2])) = [3, 3, 3] \<and>
   allocation_rows demo_ledger = [[0, 0, 0], [0, 0, 0], [0, 0, 0]] \<and>
   allocation_rows (snd (request_resources demo_ledger 0 [1, 0, 2]))
     = [[1, 0, 2], [0, 0, 0], [0, 0, 0]] \<and>
   need_rows demo_ledger = [[7, 5, 3], [3, 2, 2], [9, 0, 2]] \<and>
   need_rows (snd (request_resources demo_ledger 0 [1, 0, 2]))
     = [[6, 5, 1], [3, 2, 2], [9, 0, 2]]"
proof -
  have "fst (request_resources demo_ledger 0 [1, 0, 2]) = Inr False"
    by code_simp
  moreover have "available demo_ledger = [3, 3, 3]"
    by code_simp
  moreover have "available (snd (request_resources demo_ledger 0 [1, 0, 2])) = [3, 3, 3]"
    by code_simp
  moreover have "allocation_rows demo_ledger = [[0, 0, 0], [0, 0, 0], [0, 0, 0]]"
    by code_simp
  moreover have "allocation_rows (snd (request_resources demo_ledger 0 [1, 0, 2]))
      = [[1, 0, 2], [0, 0, 0], [0, 0, 0]]"
    by code_simp
  moreover have "need_rows demo_ledger = [[7, 5, 3], [3, 2, 2], [9, 0, 2]]"
    by code_simp
  moreover have "need_rows (snd (request_resources demo_ledger 0 [1, 0, 2]))
      = [[6, 5, 1], [3, 2, 2], [9, 0, 2]]"
    by code_simp
  ultimately show ?thesis
    using init_demo_ledger by simp
qed

text \<open>
  Claim C2: on every well-formed snapshot \<^verbatim>\<open>is_safe\<close> returns, and its sequence is the
  greedy one: each entry is the lowest-indexed unfinished actor whose need row is
  component-wise at most the work vector, which is \<open>available\<close> plus the allocation rows
  of the entries before it. With \<open>True\<close> the sequence holds every actor exactly once;
  with \<open>False\<close> it is a proper prefix after which no unfinished actor qualifies.
\<close>

theorem is_safe_greedy:
  assumes "wf_banker s"
  shows "\<exists>safe seq. is_safe s = Inr (safe, seq) \<and> greedy s seq \<and>
      (if safe then distinct seq \<and> set seq = {0..<num_threads s}
       else length seq < num_threads s \<and>
            list_all (\<lambda>i. \<not> qualifies s seq i) [0..<num_threads s])"
proof -
  have "loop_inv s (available s) (replicate (num_threads s) False) []"
    using assms by (rule loop_inv_init)
  with assms show ?thesis
    unfolding is_safe_def by (rule safe_loop_greedy)
qed

theorem is_safe_greedy_witness:
  "wf_banker two_actor_ledger \<and>
   is_safe two_actor_ledger = Inr (True, [0, 1]) \<and> greedy two_actor_ledger [0, 1] \<and>
   wf_banker scenario_A \<and>
   is_safe scenario_A = Inr (False, [1]) \<and> greedy scenario_A [1] \<and>
   list_all (\<lambda>i. \<not> qualifies scenario_A [1] i) [0..<num_threads scenario_A]"
proof -
  have r1: "is_safe two_actor_ledger = Inr (True, [0, 1])"
    by code_simp
  have r2: "is_safe scenario_A = Inr (False, [1])"
    by code_simp
  from is_safe_greedy[OF wf_examples(3)] r1 have "greedy two_actor_ledger [0, 1]"
    by auto
  moreover from is_safe_greedy[OF wf_examples(2)] r2
  have "greedy scenario_A [1] \<and>
    list_all (\<lambda>i. \<not> qualifies scenario_A [1] i) [0..<num_threads scenario_A]"
    by auto
  ultimately show ?thesis
    using r1 r2 wf_examples by simp
qed

text \<open>
  Claim C3 says that \<open>available[c]\<close> plus the allocations of class \<open>c\<close> is the same
  total after every call, granted or failed. The denied request of claim C1 breaks it:
  \<open>available\<close> is restored and the allocation row is not, so the total of class 0 goes
  from 3 to 4 and that of class 2 from 3 to 5.
\<close>

theorem denied_request_changes_class_total:
  "fst (request_resources demo_ledger 0 [1, 0, 2]) = Inr False \<and>
   class_total demo_ledger 0 = 3 \<and>
   class_total (snd (request_resources demo_ledger 0 [1, 0, 2])) 0 = 4 \<and>
   class_total demo_ledger 2 = 3 \<and>
   class_total (snd (request_resources demo_ledger 0 [1, 0, 2])) 2 = 5"
proof -
  have "fst (request_resources demo_ledger 0 [1, 0, 2]) = Inr False"
    by code_simp
  moreover have "class_total demo_ledger 0 = 3" "class_total demo_ledger 2 = 3"
    by code_simp+
  moreover have "class_total (snd (request_resources demo_ledger 0 [1, 0, 2])) 0 = 4"
    by code_simp
  moreover have "class_total (snd (request_resources demo_ledger 0 [1, 0, 2])) 2 = 5"
    by code_simp
  ultimately show ?thesis by simp
qed




text \<open>
  Claim C6 says that \<^verbatim>\<open>is_safe\<close> returns \<open>True\<close> with an ordering of all three actors on
  the snapshot of scenario A. It returns \<open>False\<close>.
\<close>

theorem scenario_A_not_safe:
  "is_safe scenario_A \<noteq> Inr (True, [1, 0, 2]) \<and>
   (case is_safe scenario_A of Inl e \<Rightarrow> False | Inr (safe, seq) \<Rightarrow> \<not> safe)"
proof -
  have "is_safe scenario_A = Inr (False, [1])"
    by code_simp
  then show ?thesis by simp
qed

text \<open>
  Claim C6, amended: on the snapshot of scenario A, whose need table is the one
  \<^verbatim>\<open>calculate_need\<close> computes, \<^verbatim>\<open>is_safe\<close> returns \<open>False\<close> with the partial sequence
  \<open>[1]\<close>: once actor 1 has finished the work vector is \<open>[5, 3, 2]\<close>, and neither actor 0
  (which needs 7 of class 0) nor actor 2 (which needs 6) fits.
\<close>

theorem scenario_A_is_safe_result:
  "calculate_need scenario_A = Inr (need_rows scenario_A) \<and>
   need_rows scenario_A = [[7, 4, 3], [1, 2, 2], [6, 0, 0]] \<and>
   is_safe scenario_A = Inr (False, [1]) \<and>
   work_after scenario_A [1] = [5, 3, 2] \<and>
   \<not> fits scenario_A [5, 3, 2] 0 \<and> \<not> fits scenario_A [5, 3, 2] 2"
proof -
  have "calculate_need scenario_A = Inr [[7, 4, 3], [1, 2, 2], [6, 0, 0]]"
    by code_simp
  moreover have "need_rows scenario_A = [[7, 4, 3], [1, 2, 2], [6, 0, 0]]"
    by code_simp
  moreover have "is_safe scenario_A = Inr (False, [1])"
    by code_simp
  moreover have "work_after scenario_A [1] = [5, 3, 2]"
    by code_simp
  moreover have "\<not> fits scenario_A [5, 3, 2] 0" "\<not> fits scenario_A [5, 3, 2] 2"
    by code_simp+
  ultimately show ?thesis by simp
qed

text \<open>
  Claim C7 says that a request of the all-zero vector is always granted. The safety
  check runs on it as on any request: on the constructor's ledger, which \<^verbatim>\<open>is_safe\<close>
  finds unsafe, the zero request of thread 0 is denied.
\<close>

theorem zero_request_denied:
  "is_safe demo_ledger = Inr (False, [1]) \<and>
   fst (request_resources demo_ledger 0 [0, 0, 0]) = Inr False"
proof -
  have "is_safe demo_ledger = Inr (False, [1])"
    by code_simp
  moreover have "fst (request_resources demo_ledger 0 [0, 0, 0]) = Inr False"
    by code_simp
  ultimately show ?thesis by simp
qed

text \<open>
  Claim C7, amended: on a well-formed ledger, for an actor of the ledger, the request of
  the all-zero vector leaves the ledger as it is; it is granted exactly when
  \<^verbatim>\<open>is_safe\<close> finds the ledger safe and no entry of the actor's need row or of
  \<open>available\<close> is negative.
\<close>

theorem zero_request:
  assumes "wf_banker s" and "py_index (num_threads s) t = Inr k"
  shows "\<exists>safe seq. is_safe s = Inr (safe, seq) \<and>
    request_resources s t (replicate (num_resources s) 0) =
      (Inr (safe \<and> list_all (\<lambda>v. 0 \<le> v) (need_rows s ! k) \<and>
            list_all (\<lambda>v. 0 \<le> v) (available s)), s)"
proof -
  let ?n = "num_resources s"
  have kn: "k < num_threads s" using assms(2) by (rule py_index_less)
  obtain safe seq where safe: "is_safe s = Inr (safe, seq)"
    using is_safe_total[OF assms(1)] by blast
  have z: "transfer s k (replicate ?n 0) ?n = s"
    using assms(1) kn by (rule transfer_zero)
  have lv: "length (available s) = ?n" and ln: "length (need s) = num_threads s"
    using assms(1) by (simp_all add: wf_banker_def)
  have lr: "length (need_rows s ! k) = ?n"
    using kn ln wf_rows(2)[OF assms(1) kn] by (simp add: need_rows_def)
  have c1: "(\<exists>i<?n. need_rows s ! k ! i < replicate ?n 0 ! i)
      \<longleftrightarrow> \<not> list_all (\<lambda>v. 0 \<le> v) (need_rows s ! k)"
    using lr by (auto simp: list_all_length not_le)
  have c2: "(\<exists>i<?n. available s ! i < replicate ?n 0 ! i)
      \<longleftrightarrow> \<not> list_all (\<lambda>v. 0 \<le> v) (available s)"
    using lv by (auto simp: list_all_length not_le)
  have "request_resources s t (replicate ?n 0) =
      (Inr (safe \<and> list_all (\<lambda>v. 0 \<le> v) (need_rows s ! k) \<and>
            list_all (\<lambda>v. 0 \<le> v) (available s)), s)"
    using request_resources_closed[OF assms, of "replicate ?n 0" safe seq] safe
    unfolding z c1 c2 by auto
  with safe show ?thesis by blast
qed

theorem zero_request_witness:
  "wf_banker two_actor_ledger \<and> py_index (num_threads two_actor_ledger) 1 = Inr 1 \<and>
   is_safe two_actor_ledger = Inr (True, [0, 1]) \<and>
   request_resources two_actor_ledger 1 (replicate (num_resources two_actor_ledger) 0)
     = (Inr True, two_actor_ledger)"
proof -
  have k: "py_index (num_threads two_actor_ledger) 1 = Inr 1"
    by code_simp
  have r: "is_safe two_actor_ledger = Inr (True, [0, 1])"
    by code_simp
  have a: "list_all (\<lambda>v. 0 \<le> v) (need_rows two_actor_ledger ! 1)"
    "list_all (\<lambda>v. 0 \<le> v) (available two_actor_ledger)"
    by code_simp+
  from zero_request[OF wf_examples(3) k] obtain safe seq
    where s: "is_safe two_actor_ledger = Inr (safe, seq)"
      and q: "request_resources two_actor_ledger 1 (replicate (num_resources two_actor_ledger) 0) =
        (Inr (safe \<and> list_all (\<lambda>v. 0 \<le> v) (need_rows two_actor_ledger ! 1) \<and>
              list_all (\<lambda>v. 0 \<le> v) (available two_actor_ledger)), two_actor_ledger)"
    by blast
  from s r have "safe" by simp
  with q a have "request_resources two_actor_ledger 1 (replicate (num_resources two_actor_ledger) 0)
      = (Inr True, two_actor_ledger)"
    by simp
  then show ?thesis
    using wf_examples(3) k r by simp
qed



section \<open>The ledger: what holds of the calls besides the denied request\<close>

lemma sum_list_map_update:
  fixes f :: "'a \<Rightarrow> int"
  shows "k < length xs \<Longrightarrow> sum_list (map f (xs[k := y])) = sum_list (map f xs) - f (xs ! k) + f y"
proof (induction xs arbitrary: k)
  case Nil
  then show ?case by simp
next
  case (Cons x xs)
  then show ?case by (cases k) simp_all
qed

lemma class_total_transfer:
  assumes wf: "wf_banker s" and k: "k < num_threads s" and len: "num_resources s \<le> length req"
    and c: "c < num_resources s"
  shows "class_total (transfer s k req m) c = class_total s c"
proof -
  have lv: "length (available s) = num_resources s" and la: "length (allocation s) = num_threads s"
    using wf by (simp_all add: wf_banker_def)
  have lr: "length (allocation_rows s ! k) = num_resources s"
    using k la wf_rows(1)[OF wf k] by (simp add: allocation_rows_def)
  have kl: "k < length (allocation_rows s)" using k la by (simp add: allocation_rows_def)
  have a: "shifted m (available s) (map uminus req) ! c
      = (if c < m then available s ! c - req ! c else available s ! c)"
    using c lv len by (simp add: shifted_def)
  have b: "shifted m (allocation_rows s ! k) req ! c
      = (if c < m then allocation_rows s ! k ! c + req ! c else allocation_rows s ! k ! c)"
    using c lr by (simp add: shifted_def)
  show ?thesis
    unfolding class_total_def transfer_available transfer_allocation_rows[OF wf k]
    using a b by (simp add: sum_list_map_update[OF kl])
qed

text \<open>
  The total of a class is kept by every granted request and by every release (on a
  well-formed ledger, for an actor of the ledger and a vector with an entry for each
  class): of the calls that return, only the request denied as unsafe changes it.
\<close>

theorem settled_calls_keep_class_total:
  assumes "wf_banker s" and "c < num_resources s"
  shows "(request_resources s t r = (Inr True, s1) \<longrightarrow> class_total s1 c = class_total s c) \<and>
    (py_index (num_threads s) t = Inr k \<and> num_resources s \<le> length r \<longrightarrow>
       class_total (snd (release_resources s t r)) c = class_total s c)"
proof (intro conjI impI)
  assume g: "request_resources s t r = (Inr True, s1)"
  have pos: "0 < num_resources s" using assms(2) by simp
  have "fst (request_resources s t r) = Inr True" using g by simp
  from granted_valid[OF assms(1) pos this] obtain k' where k': "py_index (num_threads s) t = Inr k'"
    and len: "num_resources s \<le> length r" by blast
  have kn: "k' < num_threads s" using k' by (rule py_index_less)
  let ?s1 = "transfer s k' r (num_resources s)"
  have wf1: "wf_banker ?s1" using assms(1) kn by (rule wf_transfer)
  obtain safe seq where safe: "is_safe ?s1 = Inr (safe, seq)"
    using is_safe_total[OF wf1] by blast
  have "s1 = ?s1"
    using g unfolding request_resources_closed[OF assms(1) k' len safe]
    by (auto split: if_splits)
  then show "class_total s1 c = class_total s c"
    using class_total_transfer[OF assms(1) kn len assms(2)] by simp
next
  assume a: "py_index (num_threads s) t = Inr k \<and> num_resources s \<le> length r"
  then have kn: "k < num_threads s" by (auto dest: py_index_less)
  have "release_resources s t r = (Inr (), transfer s k (map uminus r) (num_resources s))"
    using assms(1) a by (intro release_resources_closed) simp_all
  then show "class_total (snd (release_resources s t r)) c = class_total s c"
    using class_total_transfer[OF assms(1) kn _ assms(2), of "map uminus r"] a by simp
qed

theorem settled_calls_keep_class_total_witness:
  "wf_banker two_actor_ledger \<and> 0 < num_resources two_actor_ledger \<and>
   fst (request_resources two_actor_ledger 1 [1, 1]) = Inr True \<and>
   class_total two_actor_ledger 0 = 4 \<and>
   class_total (snd (request_resources two_actor_ledger 1 [1, 1])) 0 = 4 \<and>
   class_total (snd (release_resources two_actor_ledger 1 [0, 1])) 0 = 4"
proof -
  have p: "0 < num_resources two_actor_ledger"
    by code_simp
  have g: "fst (request_resources two_actor_ledger 1 [1, 1]) = Inr True"
    by code_simp
  then have g': "request_resources two_actor_ledger 1 [1, 1]
      = (Inr True, snd (request_resources two_actor_ledger 1 [1, 1]))"
    by (metis prod.collapse)
  have k: "py_index (num_threads two_actor_ledger) 1 = Inr 1 \<and>
      num_resources two_actor_ledger \<le> length [0, 1 :: int]"
    by code_simp
  have t: "class_total two_actor_ledger 0 = 4"
    by code_simp
  have "class_total (snd (request_resources two_actor_ledger 1 [1, 1])) 0 = 4"
    using settled_calls_keep_class_total[OF wf_examples(3) p, of 1 "[1, 1]"] g' t by simp
  moreover have "class_total (snd (release_resources two_actor_ledger 1 [0, 1])) 0 = 4"
    using settled_calls_keep_class_total[OF wf_examples(3) p, of 1 "[0, 1]" _ 1] k t by simp
  ultimately show ?thesis
    using wf_examples(3) p g t by simp
qed

text \<open>
  A request that one of the two comparisons rejects (an amount above the actor's need, or
  above what is available) returns \<open>False\<close> and leaves the ledger as it was.
\<close>

theorem rejected_by_comparison_unchanged:
  assumes "wf_banker s" and "py_index (num_threads s) t = Inr k"
    and "num_resources s \<le> length r"
    and "(\<exists>c<num_resources s. need_rows s ! k ! c < r ! c) \<or>
         (\<exists>c<num_resources s. available s ! c < r ! c)"
  shows "request_resources s t r = (Inr False, s)"
proof -
  let ?s1 = "transfer s k r (num_resources s)"
  have kn: "k < num_threads s" using assms(2) by (rule py_index_less)
  have wf1: "wf_banker ?s1" using assms(1) kn by (rule wf_transfer)
  obtain safe seq where safe: "is_safe ?s1 = Inr (safe, seq)"
    using is_safe_total[OF wf1] by blast
  show ?thesis
    unfolding request_resources_closed[OF assms(1-3) safe] using assms(4) by simp
qed

theorem rejected_by_comparison_unchanged_witness:
  "wf_banker demo_ledger \<and> py_index (num_threads demo_ledger) 0 = Inr 0 \<and>
   request_resources demo_ledger 0 [8, 0, 0] = (Inr False, demo_ledger) \<and>
   request_resources demo_ledger 0 [4, 0, 0] = (Inr False, demo_ledger)"
proof -
  have k: "py_index (num_threads demo_ledger) 0 = Inr 0"
    by code_simp
  have l: "num_resources demo_ledger \<le> length [8, 0, 0 :: int]"
    "num_resources demo_ledger \<le> length [4, 0, 0 :: int]"
    by code_simp+
  have a: "(\<exists>c<num_resources demo_ledger. need_rows demo_ledger ! 0 ! c < [8, 0, 0] ! c) \<or>
         (\<exists>c<num_resources demo_ledger. available demo_ledger ! c < [8, 0, 0] ! c)"
  proof -
    have "need_rows demo_ledger ! 0 ! 0 < [8, 0, 0] ! 0" "0 < num_resources demo_ledger"
      by code_simp+
    then show ?thesis by blast
  qed
  have b: "(\<exists>c<num_resources demo_ledger. need_rows demo_ledger ! 0 ! c < [4, 0, 0] ! c) \<or>
         (\<exists>c<num_resources demo_ledger. available demo_ledger ! c < [4, 0, 0] ! c)"
  proof -
    have "available demo_ledger ! 0 < [4, 0, 0] ! 0" "0 < num_resources demo_ledger"
      by code_simp+
    then show ?thesis by blast
  qed
  show ?thesis
    using rejected_by_comparison_unchanged[OF wf_examples(1) k l(1) a]
      rejected_by_comparison_unchanged[OF wf_examples(1) k l(2) b] wf_examples(1) k by simp
qed

section \<open>The detector: acquiring and releasing\<close>

lemma denotes_simps [simp]:
  "denotes n None j = False"
  "denotes n (Some r) j = (py_index n r = Inr j)"
  by (simp_all add: denotes_def)

lemma py_set_index: "py_index (length xs) i = Inr k \<Longrightarrow> py_set xs i v = Inr (xs[k := v])"
  by (simp add: py_set_def)

lemma py_get_cases:
  obtains (err) "py_get xs i = Inl IndexError" "py_set xs i v = Inl IndexError"
  | (ok) k where "py_index (length xs) i = Inr k" "k < length xs"
      "py_get xs i = Inr (xs ! k)" "py_set xs i v = Inr (xs[k := v])"
proof (cases "py_index (length xs) i")
  case (Inl e)
  then have "e = IndexError" by (auto simp: py_index_def Let_def split: if_splits)
  with Inl show ?thesis by (intro err) (simp_all add: py_get_def py_set_def)
next
  case (Inr k)
  then show ?thesis
    by (intro ok[of k]) (simp_all add: py_get_def py_set_def py_index_less)
qed

lemma release_resource_closed:
  assumes "py_index (length (thread_locks s)) t = Inr k"
    and "py_index (length (resource_status s)) r = Inr j"
  shows "release_resource s t r =
    (Inr (), if thread_locks s ! k = Some r
             then s\<lparr>resource_status := (resource_status s)[j := None],
                    thread_locks := (thread_locks s)[k := None]\<rparr>
             else s)"
  using assms by (simp add: release_resource_def py_get_index py_set_index Let_def)

lemma request_resource_free:
  assumes "py_index (length (thread_locks s)) t = Inr k"
    and "py_index (length (resource_status s)) r = Inr j"
    and "resource_status s ! j = None"
  shows "request_resource s t r =
    (Inr (), s\<lparr>resource_status := (resource_status s)[j := Some t],
               thread_locks := (thread_locks s)[k := Some r]\<rparr>)"
  using assms by (simp add: request_resource_def py_get_index py_set_index Let_def)

lemma unrecorded_nth:
  "unrecorded s j \<Longrightarrow> k < length (thread_locks s)
    \<Longrightarrow> \<not> denotes (length (resource_status s)) (thread_locks s ! k) j"
  by (simp add: unrecorded_def list_all_length)

lemma leaked_request:
  assumes "leaked s j t"
  shows "leaked (snd (request_resource s x r)) j t"
proof (cases rule: py_get_cases[of "resource_status s" r "Some x"])
  case err
  then show ?thesis using assms by (simp add: request_resource_def)
next
  case (ok i)
  show ?thesis
  proof (cases "resource_status s ! i")
    case (Some holder)
    then show ?thesis
      using assms ok
      by (auto simp: request_resource_def leaked_def unrecorded_def split: option.splits)
  next
    case None
    then have ij: "i \<noteq> j" using assms by (auto simp: leaked_def)
    let ?s1 = "s\<lparr>resource_status := (resource_status s)[i := Some x]\<rparr>"
    have l1: "leaked ?s1 j t"
      using assms ij by (simp add: leaked_def unrecorded_def)
    note oki = ok
    show ?thesis
    proof (cases rule: py_get_cases[of "thread_locks ?s1" x "Some r"])
      case err
      then show ?thesis using oki None l1 by (simp add: request_resource_def Let_def)
    next
      case (ok k)
      have "\<not> denotes (length (resource_status s)) (Some r) j" using oki(1) ij by simp
      then have "leaked (?s1\<lparr>thread_locks := (thread_locks ?s1)[k := Some r]\<rparr>) j t"
        using l1 ok(2)
        by (auto simp: leaked_def unrecorded_def list_all_length nth_list_update)
      then show ?thesis
        using oki None ok by (simp add: request_resource_def Let_def)
    qed
  qed
qed

lemma leaked_release:
  assumes "leaked s j t"
  shows "leaked (snd (release_resource s x r)) j t"
proof (cases rule: py_get_cases[of "thread_locks s" x None])
  case err
  then show ?thesis using assms by (simp add: release_resource_def)
next
  case (ok k)
  show ?thesis
  proof (cases "thread_locks s ! k = Some r")
    case False
    then show ?thesis using assms ok by (simp add: release_resource_def)
  next
    case True
    note okk = ok
    show ?thesis
    proof (cases rule: py_get_cases[of "resource_status s" r None])
      case err
      then show ?thesis using assms okk True by (simp add: release_resource_def)
    next
      case (ok i)
      have "\<not> denotes (length (resource_status s)) (Some r) j"
        using unrecorded_nth[of s j k] assms okk(2) True by (simp add: leaked_def)
      then have ij: "i \<noteq> j" using ok(1) by auto
      have "leaked (s\<lparr>resource_status := (resource_status s)[i := None],
              thread_locks := (thread_locks s)[k := None]\<rparr>) j t"
        using assms ij okk(2)
        by (auto simp: leaked_def unrecorded_def list_all_length nth_list_update)
      then show ?thesis
        using okk True ok by (simp add: release_resource_def Let_def)
    qed
  qed
qed

lemma leaked_run_calls:
  "leaked s j t \<Longrightarrow> leaked (run_calls s calls) j t"
  unfolding run_calls_def
proof (induction calls arbitrary: s)
  case Nil
  then show ?case by simp
next
  case (Cons c calls)
  have "leaked (apply_call s c) j t"
    using Cons.prems by (cases c) (simp_all add: leaked_request leaked_release)
  then show ?case using Cons.IH by simp
qed

lemma leaked_release_noop:
  assumes "leaked s j t" and "py_index (length (resource_status s)) r = Inr j"
  shows "release_resource s x r = (Inr (), s) \<or> release_resource s x r = (Inl IndexError, s)"
proof (cases rule: py_get_cases[of "thread_locks s" x None])
  case err
  then show ?thesis by (simp add: release_resource_def)
next
  case (ok k)
  have "\<not> denotes (length (resource_status s)) (thread_locks s ! k) j"
    using unrecorded_nth[of s j k] assms(1) ok(2) by (simp add: leaked_def)
  then have "thread_locks s ! k \<noteq> Some r" using assms(2) by auto
  then show ?thesis using ok by (simp add: release_resource_def)
qed

lemma lengths_request:
  "length (resource_status (snd (request_resource s x r))) = length (resource_status s) \<and>
   length (thread_locks (snd (request_resource s x r))) = length (thread_locks s)"
  by (auto simp: request_resource_def py_set_def Let_def split: sum.splits option.splits)

lemma lengths_release:
  "length (resource_status (snd (release_resource s x r))) = length (resource_status s) \<and>
   length (thread_locks (snd (release_resource s x r))) = length (thread_locks s)"
  by (auto simp: release_resource_def py_set_def Let_def split: sum.splits option.splits)

lemma lengths_run_calls:
  "length (resource_status (run_calls s calls)) = length (resource_status s) \<and>
   length (thread_locks (run_calls s calls)) = length (thread_locks s)"
  unfolding run_calls_def
proof (induction calls arbitrary: s)
  case Nil
  show ?case by simp
next
  case (Cons c calls)
  show ?case
    using Cons.IH[of "apply_call s c"] lengths_request lengths_release
    by (cases c) simp_all
qed

subsection \<open>The example states\<close>



section \<open>The detector: the depth-first search\<close>

lemma py_set_nat: "i < length xs \<Longrightarrow> py_set xs (int i) v = Inr (xs[i := v])"
  by (simp add: py_set_def py_index_def)

lemma stacked_pop:
  "stacked (m\<lparr>rec_stack := (rec_stack m)[t := False]\<rparr>) = stacked m - {t}"
  by (cases "t < length (rec_stack m)") (auto simp: stacked_def nth_list_update)

lemma seen_rec_stack_upd [simp]: "seen (m\<lparr>rec_stack := x\<rparr>) = seen m"
  by (simp add: seen_def)

lemma stacked_visited_upd [simp]: "stacked (m\<lparr>visited := x\<rparr>) = stacked m"
  by (simp add: stacked_def)

lemma dfs_post_found:
  "res = Some (Inr (True, m')) \<Longrightarrow> has_cycle (lock_graph s) \<Longrightarrow> dfs_post s m D res"
  unfolding dfs_post_def by (intro exI[of _ True] exI[of _ m']) simp

lemma dfs_post_clear:
  "res = Some (Inr (False, m')) \<Longrightarrow> wf_marks s m' \<Longrightarrow> stacked m' = stacked m \<Longrightarrow>
   seen m \<subseteq> seen m' \<Longrightarrow> settled (lock_graph s) m' \<Longrightarrow> D \<subseteq> finished m' \<Longrightarrow>
   dfs_post s m D res"
  unfolding dfs_post_def by (intro exI[of _ False] exI[of _ m']) simp

lemma dfs_post_cases:
  assumes "dfs_post s m D res"
  obtains (found) m' where "res = Some (Inr (True, m'))" "has_cycle (lock_graph s)"
  | (clear) m' where "res = Some (Inr (False, m'))" "wf_marks s m'" "stacked m' = stacked m"
      "seen m \<subseteq> seen m'" "settled (lock_graph s) m'" "D \<subseteq> finished m'"
proof -
  from assms obtain b m' where r: "res = Some (Inr (b, m'))"
    and p: "if b then has_cycle (lock_graph s)
         else wf_marks s m' \<and> stacked m' = stacked m \<and> seen m \<subseteq> seen m' \<and>
              settled (lock_graph s) m' \<and> D \<subseteq> finished m'"
    unfolding dfs_post_def by blast
  show thesis
  proof (cases b)
    case True
    then show ?thesis using r p by (intro found[of m']) simp_all
  next
    case False
    then show ?thesis using r p by (intro clear[of m']) simp_all
  qed
qed

lemma finished_mono:
  "stacked m' = stacked m \<Longrightarrow> seen m \<subseteq> seen m' \<Longrightarrow> finished m \<subseteq> finished m'"
  by (auto simp: finished_def)

lemma dfs_pre_mono:
  assumes "dfs_pre s depth m" "wf_marks s m'" "settled (lock_graph s) m'" "seen m \<subseteq> seen m'"
  shows "dfs_pre s depth m'"
proof -
  have "card ({0..<num_threads_d s} - seen m') \<le> card ({0..<num_threads_d s} - seen m)"
    using assms(4) by (intro card_mono) auto
  then show ?thesis using assms by (simp add: dfs_pre_def)
qed

lemma lock_graph_edge:
  assumes "t < num_threads_d s" "b < num_threads_d s" "b \<noteq> t" "r \<in> set (waiting_of s t)"
    "thread_locks s ! b = Some r"
  shows "(t, b) \<in> lock_graph s"
  using assms by (auto simp: lock_graph_def)

lemma cycle_through_stack:
  assumes "(o', t) \<in> E\<^sup>*" "(t, o') \<in> E"
  shows "has_cycle E"
proof -
  have "(o', o') \<in> E\<^sup>+" using assms by (rule rtrancl_into_trancl1)
  then show ?thesis unfolding has_cycle_def by blast
qed

lemma dfs_post_weaken:
  assumes "dfs_post s m' D res" and "stacked m' = stacked m" and "seen m \<subseteq> seen m'"
    and "B \<subseteq> finished m'"
  shows "dfs_post s m (B \<union> D) res"
  using assms(1)
proof (cases rule: dfs_post_cases)
  case (found m'')
  then show ?thesis by (rule dfs_post_found)
next
  case (clear m'')
  show ?thesis
  proof (rule dfs_post_clear[OF clear(1,2)])
    show "stacked m'' = stacked m" using clear(3) assms(2) by simp
    show "seen m \<subseteq> seen m''" using clear(4) assms(3) by blast
    show "settled (lock_graph s) m''" by (rule clear(5))
    show "B \<union> D \<subseteq> finished m''"
      using clear(6) assms(4) finished_mono[OF clear(3,4)] by blast
  qed
qed

lemma for_threads_post:
  assumes wf: "wf_detector s"
    and call: "\<And>b m. b < num_threads_d s \<Longrightarrow> b \<notin> seen m \<Longrightarrow> dfs_pre s k m \<Longrightarrow>
        (\<forall>x\<in>stacked m. (x, b) \<in> (lock_graph s)\<^sup>+) \<Longrightarrow>
        dfs_post s m {b} (is_deadlock k s b m)"
    and t: "t < num_threads_d s" and r: "r \<in> set (waiting_of s t)"
  shows "dfs_pre s k m \<Longrightarrow> \<forall>x\<in>stacked m. (x, t) \<in> (lock_graph s)\<^sup>* \<Longrightarrow>
     set os \<subseteq> set (enumerate 0 (thread_locks s)) \<Longrightarrow>
     dfs_post s m {b. (b, Some r) \<in> set os \<and> b \<noteq> t} (for_threads k s t r os m)"
proof (induction os arbitrary: m)
  case Nil
  have "wf_marks s m" "settled (lock_graph s) m"
    using Nil.prems(1) by (simp_all add: dfs_pre_def)
  then show ?case
    by (intro dfs_post_clear[of _ m]) simp_all
next
  case (Cons p os)
  obtain b l where p: "p = (b, l)" by (cases p)
  note pre = Cons.prems(1) and path = Cons.prems(2)
  have sub: "set os \<subseteq> set (enumerate 0 (thread_locks s))"
    using Cons.prems(3) by simp
  have "(b, l) \<in> set (enumerate 0 (thread_locks s))"
    using Cons.prems(3) p by simp
  then have b: "b < num_threads_d s" and l: "l = thread_locks s ! b"
    using wf by (simp_all add: in_set_enumerate_eq wf_detector_def)
  have wfm: "wf_marks s m" using pre by (simp add: dfs_pre_def)
  then have lens: "length (visited m) = num_threads_d s" "length (rec_stack m) = num_threads_d s"
    by (simp_all add: wf_marks_def)
  let ?D = "{x. (x, Some r) \<in> set os \<and> x \<noteq> t}"
  show ?case
  proof (cases "b \<noteq> t \<and> l = Some r")
    case False
    then have eq: "for_threads k s t r (p # os) m = for_threads k s t r os m"
      using p by auto
    have D: "{x. (x, Some r) \<in> set (p # os) \<and> x \<noteq> t} = ?D"
      using False p by auto
    show ?thesis
      unfolding eq D by (rule Cons.IH[OF pre path sub])
  next
    case True
    then have bt: "b \<noteq> t" and lr: "l = Some r" by simp_all
    have ll: "thread_locks s ! b = Some r" using l lr by simp
    have edge: "(t, b) \<in> lock_graph s"
      using t b bt r ll by (rule lock_graph_edge)
    have D: "{x. (x, Some r) \<in> set (p # os) \<and> x \<noteq> t} = {b} \<union> ?D"
      using True p by auto
    have gv: "py_get (visited m) (int b) = Inr (visited m ! b)"
      using b lens by (simp add: py_get_nat)
    have gs: "py_get (rec_stack m) (int b) = Inr (rec_stack m ! b)"
      using b lens by (simp add: py_get_nat)
    show ?thesis
    proof (cases "visited m ! b")
      case vis: True
      show ?thesis
      proof (cases "rec_stack m ! b")
        case True
        then have "b \<in> stacked m" using b lens by (simp add: stacked_def)
        then have "(b, t) \<in> (lock_graph s)\<^sup>*" using path by blast
        then have cyc: "has_cycle (lock_graph s)" using edge by (rule cycle_through_stack)
        have eq: "for_threads k s t r (p # os) m = Some (Inr (True, m))"
          using p bt lr vis True gv gs by simp
        show ?thesis by (rule dfs_post_found[OF eq cyc])
      next
        case False
        have eq: "for_threads k s t r (p # os) m = for_threads k s t r os m"
          using p bt lr vis False gv gs by simp
        have bfin: "{b} \<subseteq> finished m"
          using vis False b lens by (simp add: finished_def seen_def stacked_def)
        have "dfs_post s m ?D (for_threads k s t r os m)"
          by (rule Cons.IH[OF pre path sub])
        then show ?thesis
          unfolding eq D using bfin by (intro dfs_post_weaken) simp_all
      qed
    next
      case unvis: False
      then have bns: "b \<notin> seen m" by (simp add: seen_def)
      have path': "\<forall>x\<in>stacked m. (x, b) \<in> (lock_graph s)\<^sup>+"
        using path edge by (auto intro: rtrancl_into_trancl1)
      have "dfs_post s m {b} (is_deadlock k s b m)"
        by (rule call[OF b bns pre path'])
      then show ?thesis
      proof (cases rule: dfs_post_cases)
        case (found m')
        have eq: "for_threads k s t r (p # os) m = Some (Inr (True, m'))"
          using p bt lr unvis gv found(1) by simp
        show ?thesis by (rule dfs_post_found[OF eq found(2)])
      next
        case (clear m')
        have lens': "length (rec_stack m') = num_threads_d s"
          using clear(2) by (simp add: wf_marks_def)
        have "b \<notin> stacked m'" using clear(6) by (auto simp: finished_def)
        then have ns: "\<not> rec_stack m' ! b" using b lens' by (simp add: stacked_def)
        have gs': "py_get (rec_stack m') (int b) = Inr (rec_stack m' ! b)"
          using b lens' by (simp add: py_get_nat)
        have eq: "for_threads k s t r (p # os) m = for_threads k s t r os m'"
          using p bt lr unvis gv clear(1) gs' ns by simp
        have pre': "dfs_pre s k m'"
          by (rule dfs_pre_mono[OF pre clear(2,5,4)])
        have path'': "\<forall>x\<in>stacked m'. (x, t) \<in> (lock_graph s)\<^sup>*"
          using path clear(3) by simp
        have "dfs_post s m' ?D (for_threads k s t r os m')"
          by (rule Cons.IH[OF pre' path'' sub])
        then show ?thesis
          unfolding eq D using clear(3,4,6) by (rule dfs_post_weaken)
      qed
    qed
  qed
qed

lemma for_resources_post:
  assumes wf: "wf_detector s"
    and call: "\<And>b m. b < num_threads_d s \<Longrightarrow> b \<notin> seen m \<Longrightarrow> dfs_pre s k m \<Longrightarrow>
        (\<forall>x\<in>stacked m. (x, b) \<in> (lock_graph s)\<^sup>+) \<Longrightarrow>
        dfs_post s m {b} (is_deadlock k s b m)"
    and t: "t < num_threads_d s"
  shows "dfs_pre s k m \<Longrightarrow> \<forall>x\<in>stacked m. (x, t) \<in> (lock_graph s)\<^sup>* \<Longrightarrow>
     set rs \<subseteq> set (waiting_of s t) \<Longrightarrow>
     dfs_post s m {b. b < num_threads_d s \<and> b \<noteq> t \<and> (\<exists>r\<in>set rs. thread_locks s ! b = Some r)}
       (for_resources k s t rs m)"
proof (induction rs arbitrary: m)
  case Nil
  have "wf_marks s m" "settled (lock_graph s) m"
    using Nil.prems(1) by (simp_all add: dfs_pre_def)
  then show ?case
    by (intro dfs_post_clear[of _ m]) simp_all
next
  case (Cons r rs)
  note pre = Cons.prems(1) and path = Cons.prems(2)
  have r: "r \<in> set (waiting_of s t)" and sub: "set rs \<subseteq> set (waiting_of s t)"
    using Cons.prems(3) by simp_all
  let ?B = "{b. (b, Some r) \<in> set (enumerate 0 (thread_locks s)) \<and> b \<noteq> t}"
  let ?D = "{b. b < num_threads_d s \<and> b \<noteq> t \<and> (\<exists>r\<in>set rs. thread_locks s ! b = Some r)}"
  have D: "{b. b < num_threads_d s \<and> b \<noteq> t \<and> (\<exists>r\<in>set (r # rs). thread_locks s ! b = Some r)}
      = ?B \<union> ?D"
    using wf by (auto simp: in_set_enumerate_eq wf_detector_def)
  have "dfs_post s m ?B (for_threads k s t r (enumerate 0 (thread_locks s)) m)"
    by (rule for_threads_post[OF wf call t r pre path order_refl])
  then show ?case
  proof (cases rule: dfs_post_cases)
    case (found m')
    have eq: "for_resources k s t (r # rs) m = Some (Inr (True, m'))"
      using found(1) by simp
    show ?thesis by (rule dfs_post_found[OF eq found(2)])
  next
    case (clear m')
    have eq: "for_resources k s t (r # rs) m = for_resources k s t rs m'"
      using clear(1) by simp
    have pre': "dfs_pre s k m'"
      by (rule dfs_pre_mono[OF pre clear(2,5,4)])
    have path': "\<forall>x\<in>stacked m'. (x, t) \<in> (lock_graph s)\<^sup>*"
      using path clear(3) by simp
    have "dfs_post s m' ?D (for_resources k s t rs m')"
      by (rule Cons.IH[OF pre' path' sub])
    then show ?thesis
      unfolding eq D using clear(3,4,6) by (rule dfs_post_weaken)
  qed
qed

lemma closed_rtrancl:
  assumes "E `` B \<subseteq> B" "(y, z) \<in> E\<^sup>*" "y \<in> B"
  shows "z \<in> B"
  using assms(2,3,1) by (induction rule: rtrancl_induct) auto

lemma settled_finish:
  assumes st: "settled E m" and succ: "E `` {t} \<subseteq> finished m" and t: "t \<notin> finished m"
    and fin: "finished m' = insert t (finished m)"
  shows "settled E m'"
proof -
  have cl: "E `` finished m \<subseteq> finished m" and ac: "\<And>x. x \<in> finished m \<Longrightarrow> (x, x) \<notin> E\<^sup>+"
    using st by (auto simp: settled_def)
  have "E `` finished m' \<subseteq> finished m'"
    using cl succ fin by auto
  moreover have "(x, x) \<notin> E\<^sup>+" if "x \<in> finished m'" for x
  proof (cases "x = t")
    case False
    then show ?thesis using that fin ac by simp
  next
    case True
    show ?thesis
    proof
      assume "(x, x) \<in> E\<^sup>+"
      then obtain y where y: "(t, y) \<in> E" "(y, t) \<in> E\<^sup>*"
        using True by (auto dest: tranclD)
      then have "y \<in> finished m" using succ by auto
      then have "t \<in> finished m" using closed_rtrancl[OF cl y(2)] by simp
      then show False using t by simp
    qed
  qed
  ultimately show ?thesis by (simp add: settled_def)
qed

lemma is_deadlock_post:
  assumes wf: "wf_detector s"
  shows "t < num_threads_d s \<Longrightarrow> t \<notin> seen m \<Longrightarrow> dfs_pre s k m \<Longrightarrow>
     \<forall>x\<in>stacked m. (x, t) \<in> (lock_graph s)\<^sup>+ \<Longrightarrow>
     dfs_post s m {t} (is_deadlock k s t m)"
proof (induction k arbitrary: t m)
  case 0
  have "t \<in> {0..<num_threads_d s} - seen m" using "0.prems"(1,2) by simp
  then have "card ({0..<num_threads_d s} - seen m) \<noteq> 0" by (auto simp: card_eq_0_iff)
  then show ?case using "0.prems"(3) by (simp add: dfs_pre_def)
next
  case (Suc k)
  note t = Suc.prems(1) and unseen = Suc.prems(2) and pre = Suc.prems(3) and path = Suc.prems(4)
  let ?E = "lock_graph s"
  have wfm: "wf_marks s m" and st: "settled ?E m"
    and cd: "card ({0..<num_threads_d s} - seen m) \<le> Suc k"
    using pre by (simp_all add: dfs_pre_def)
  have lens: "length (visited m) = num_threads_d s" "length (rec_stack m) = num_threads_d s"
    and ss: "stacked m \<subseteq> seen m"
    using wfm by (simp_all add: wf_marks_def)
  have tns: "t \<notin> stacked m" using unseen ss by blast
  define m1 where "m1 = \<lparr>visited = (visited m)[t := True], rec_stack = (rec_stack m)[t := True]\<rparr>"
  have m1: "m1 = m\<lparr>visited := (visited m)[t := True], rec_stack := (rec_stack m)[t := True]\<rparr>"
    by (simp add: m1_def)
  have seen1: "seen m1 = insert t (seen m)"
    using t lens by (auto simp: m1_def seen_def nth_list_update)
  have st1: "stacked m1 = insert t (stacked m)"
    using t lens by (auto simp: m1_def stacked_def nth_list_update)
  have fin1: "finished m1 = finished m"
    using seen1 st1 unseen by (auto simp: finished_def)
  have wfm1: "wf_marks s m1"
    using lens ss seen1 st1 by (auto simp: wf_marks_def m1_def)
  have st1': "settled ?E m1" using st fin1 by (simp add: settled_def)
  have "card ({0..<num_threads_d s} - seen m1) < card ({0..<num_threads_d s} - seen m)"
    using t unseen seen1 by (intro psubset_card_mono) auto
  then have pre1: "dfs_pre s k m1"
    using wfm1 st1' cd by (simp add: dfs_pre_def)
  have path1: "\<forall>x\<in>stacked m1. (x, t) \<in> ?E\<^sup>*"
    using path st1 by auto
  have "waiting_threads s (int t) \<noteq> None"
    using wf t by (simp add: wf_detector_def list_all_iff)
  then obtain w where w: "waiting_threads s (int t) = Some w"
    by blast
  then have wo: "waiting_of s t = w" by (simp add: waiting_of_def)
  have succs: "{b. b < num_threads_d s \<and> b \<noteq> t \<and> (\<exists>r\<in>set w. thread_locks s ! b = Some r)}
      = ?E `` {t}"
    using t wo by (auto simp: lock_graph_def)
  have call: "\<And>b m. b < num_threads_d s \<Longrightarrow> b \<notin> seen m \<Longrightarrow> dfs_pre s k m \<Longrightarrow>
        (\<forall>x\<in>stacked m. (x, b) \<in> ?E\<^sup>+) \<Longrightarrow> dfs_post s m {b} (is_deadlock k s b m)"
    by (rule Suc.IH)
  have subw: "set w \<subseteq> set (waiting_of s t)" using wo by simp
  have "dfs_post s m1
      {b. b < num_threads_d s \<and> b \<noteq> t \<and> (\<exists>r\<in>set w. thread_locks s ! b = Some r)}
      (for_resources k s t w m1)"
    using for_resources_post[OF wf call t pre1 path1 subw] .
  then have loop: "dfs_post s m1 (?E `` {t}) (for_resources k s t w m1)"
    unfolding succs .
  have unfold: "is_deadlock (Suc k) s t m =
      (case for_resources k s t w m1 of
         None \<Rightarrow> None
       | Some (Inl e) \<Rightarrow> Some (Inl e)
       | Some (Inr (found, m')) \<Rightarrow>
           if found then Some (Inr (True, m'))
           else
             (case py_set (rec_stack m') (int t) False of
                Inl e \<Rightarrow> Some (Inl e)
              | Inr stk' \<Rightarrow> Some (Inr (False, m'\<lparr>rec_stack := stk'\<rparr>))))"
    using t lens w by (simp add: py_set_nat m1_def)
  from loop show ?case
  proof (cases rule: dfs_post_cases)
    case (found m')
    have eq: "is_deadlock (Suc k) s t m = Some (Inr (True, m'))"
      unfolding unfold using found(1) by simp
    show ?thesis by (rule dfs_post_found[OF eq found(2)])
  next
    case (clear m2)
    have lens2: "length (visited m2) = num_threads_d s" "length (rec_stack m2) = num_threads_d s"
      and ss2: "stacked m2 \<subseteq> seen m2"
      using clear(2) by (simp_all add: wf_marks_def)
    define m3 where "m3 = m2\<lparr>rec_stack := (rec_stack m2)[t := False]\<rparr>"
    have eq: "is_deadlock (Suc k) s t m = Some (Inr (False, m3))"
      unfolding unfold using clear(1) t lens2 by (simp add: py_set_nat m3_def)
    have st3: "stacked m3 = stacked m"
      using clear(3) st1 tns by (simp add: m3_def stacked_pop)
    have seen3: "seen m3 = seen m2" by (simp add: m3_def)
    have tin: "t \<in> seen m2" using clear(4) seen1 by auto
    have fin3: "finished m3 = insert t (finished m2)"
      using st3 seen3 clear(3) st1 tin tns by (auto simp: finished_def)
    have tnf: "t \<notin> finished m2" using clear(3) st1 by (simp add: finished_def)
    show ?thesis
    proof (rule dfs_post_clear[OF eq])
      show "wf_marks s m3"
        using lens2 ss2 st3 seen3 clear(3) st1 by (auto simp: wf_marks_def m3_def)
      show "stacked m3 = stacked m" by (rule st3)
      show "seen m \<subseteq> seen m3" using seen3 clear(4) seen1 by auto
      show "settled ?E m3" using clear(5,6) tnf fin3 by (rule settled_finish)
      show "{t} \<subseteq> finished m3" using fin3 by simp
    qed
  qed
qed

lemma check_loop_post:
  assumes wf: "wf_detector s"
  shows "dfs_pre s k m \<Longrightarrow> stacked m = {} \<Longrightarrow> set ts \<subseteq> {0..<num_threads_d s} \<Longrightarrow>
     \<forall>x<num_threads_d s. x \<notin> set ts \<longrightarrow> x \<in> finished m \<Longrightarrow>
     check_loop k s ts m = Some (Inr (has_cycle (lock_graph s)))"
proof (induction ts arbitrary: m)
  case Nil
  let ?E = "lock_graph s"
  have st: "settled ?E m" using Nil.prems(1) by (simp add: dfs_pre_def)
  have "\<not> has_cycle ?E"
  proof
    assume "has_cycle ?E"
    then obtain a where a: "(a, a) \<in> ?E\<^sup>+" by (auto simp: has_cycle_def)
    then obtain y where "(a, y) \<in> ?E" by (auto dest: tranclD)
    then have "a < num_threads_d s" by (simp add: lock_graph_def)
    then have "a \<in> finished m" using Nil.prems(4) by simp
    then show False using st a by (auto simp: settled_def)
  qed
  then show ?case by simp
next
  case (Cons t ts)
  note pre = Cons.prems(1) and empty = Cons.prems(2)
  have t: "t < num_threads_d s" and sub: "set ts \<subseteq> {0..<num_threads_d s}"
    using Cons.prems(3) by simp_all
  have wfm: "wf_marks s m" using pre by (simp add: dfs_pre_def)
  then have lens: "length (visited m) = num_threads_d s" by (simp add: wf_marks_def)
  have gv: "py_get (visited m) (int t) = Inr (visited m ! t)"
    using t lens by (simp add: py_get_nat)
  show ?case
  proof (cases "visited m ! t")
    case True
    then have "t \<in> finished m" using t lens empty by (simp add: finished_def seen_def)
    then have rest: "\<forall>x<num_threads_d s. x \<notin> set ts \<longrightarrow> x \<in> finished m"
      using Cons.prems(4) by auto
    have "check_loop k s (t # ts) m = check_loop k s ts m"
      using gv True by simp
    then show ?thesis using Cons.IH[OF pre empty sub rest] by simp
  next
    case False
    then have unseen: "t \<notin> seen m" by (simp add: seen_def)
    have "dfs_post s m {t} (is_deadlock k s t m)"
      using wf t unseen pre empty by (intro is_deadlock_post) simp_all
    then show ?thesis
    proof (cases rule: dfs_post_cases)
      case (found m')
      then show ?thesis using gv False by simp
    next
      case (clear m')
      have pre': "dfs_pre s k m'" by (rule dfs_pre_mono[OF pre clear(2,5,4)])
      have empty': "stacked m' = {}" using clear(3) empty by simp
      have "finished m \<subseteq> finished m'" by (rule finished_mono[OF clear(3,4)])
      then have rest: "\<forall>x<num_threads_d s. x \<notin> set ts \<longrightarrow> x \<in> finished m'"
        using Cons.prems(4) clear(6) by auto
      have "check_loop k s (t # ts) m = check_loop k s ts m'"
        using gv False clear(1) by simp
      then show ?thesis using Cons.IH[OF pre' empty' sub rest] by simp
    qed
  qed
qed

lemma two_locks_state_fields:
  "resource_status two_locks_state = [Some 0, Some 0, Some 1]"
  "thread_locks two_locks_state = [Some 1, Some 2]"
  "waiting_threads two_locks_state 0 = Some [2]"
  "waiting_threads two_locks_state 1 = Some [0]"
  "num_threads_d two_locks_state = 2"
  by code_simp+

lemma scenario_B_fields:
  "resource_status scenario_B = [Some 0, Some 1]"
  "thread_locks scenario_B = [Some 0, Some 1]"
  "waiting_threads scenario_B 0 = Some [1]"
  "waiting_threads scenario_B 1 = Some [0]"
  "num_threads_d scenario_B = 2"
  by code_simp+

section \<open>The detector: the claims\<close>

text \<open>
  Claim C4 says that detection reports a deadlock exactly when the wait-for graph
  derived from the held map (an edge from \<open>a\<close> to another thread \<open>b\<close> when a resource of
  the waiting set of \<open>a\<close> is held by \<open>b\<close>) has a cycle. \<^verbatim>\<open>check_deadlock\<close> looks for the
  holder of an awaited resource in \<^verbatim>\<open>thread_locks\<close>, where a thread has one entry, the
  resource it acquired last. When thread 0 has acquired resources 0 and 1, thread 1 has
  acquired resource 2, thread 0 then asks for resource 2 and thread 1 for resource 0,
  each thread waits for a resource the other holds: the graph of the held map has the
  cycle of the two threads. The record of thread 0 is resource 1, so the wait of thread 1
  for resource 0 finds no holder, and \<^verbatim>\<open>check_deadlock\<close> returns \<open>False\<close>.
\<close>

theorem check_deadlock_misses_held_cycle:
  "two_locks_state = run_calls (detector_init 3 2)
     [Request 0 0, Request 0 1, Request 1 2, Request 0 2, Request 1 0] \<and>
   resource_status two_locks_state = [Some 0, Some 0, Some 1] \<and>
   thread_locks two_locks_state = [Some 1, Some 2] \<and>
   waiting_threads two_locks_state 0 = Some [2] \<and>
   waiting_threads two_locks_state 1 = Some [0] \<and>
   (0, 1) \<in> wait_for two_locks_state \<and> (1, 0) \<in> wait_for two_locks_state \<and>
   has_cycle (wait_for two_locks_state) \<and>
   check_deadlock two_locks_state = Some (Inr False)"
proof -
  have e1: "(0, 1) \<in> wait_for two_locks_state"
    by (simp add: wait_for_def waiting_of_def held_def py_get_def py_index_def
        two_locks_state_fields)
  have e2: "(1, 0) \<in> wait_for two_locks_state"
    by (simp add: wait_for_def waiting_of_def held_def py_get_def py_index_def
        two_locks_state_fields)
  have "(0, 0) \<in> (wait_for two_locks_state)\<^sup>+"
    using e1 e2 by (rule trancl_into_trancl[OF r_into_trancl])
  then have c: "has_cycle (wait_for two_locks_state)"
    unfolding has_cycle_def by blast
  have r: "check_deadlock two_locks_state = Some (Inr False)"
    by code_simp
  have d: "two_locks_state = run_calls (detector_init 3 2)
      [Request 0 0, Request 0 1, Request 1 2, Request 0 2, Request 1 0]"
    by (rule two_locks_state_def)
  have f: "resource_status two_locks_state = [Some 0, Some 0, Some 1] \<and>
      thread_locks two_locks_state = [Some 1, Some 2] \<and>
      waiting_threads two_locks_state 0 = Some [2] \<and>
      waiting_threads two_locks_state 1 = Some [0]"
    by (simp add: two_locks_state_fields)
  show ?thesis
    using d f e1 e2 c r by blast
qed




text \<open>
  Claim C10: a thread's lock record holds one resource. When a thread acquires a free
  resource \<open>r1\<close> and then another free resource \<open>r2\<close>, its record is \<open>r2\<close>, and a
  release of \<open>r1\<close> by the thread returns normally and changes nothing: \<open>r1\<close> stays marked
  as taken by the thread. When no lock record denoted the slot of \<open>r1\<close> before (as in
  every state where a free resource is in no record), this stays so after any further
  calls of \<^verbatim>\<open>request_resource\<close> and \<^verbatim>\<open>release_resource\<close>, by any thread.
\<close>

theorem second_acquire_overwrites_lock_record:
  assumes wf: "wf_detector s" and k: "py_index (num_threads_d s) t = Inr k"
    and j1: "py_index (num_resources_d s) r1 = Inr j1"
    and j2: "py_index (num_resources_d s) r2 = Inr j2"
    and ne: "j1 \<noteq> j2"
    and free: "resource_status s ! j1 = None" "resource_status s ! j2 = None"
  shows "\<exists>s1 s2.
    request_resource s t r1 = (Inr (), s1) \<and>
    thread_locks s1 ! k = Some r1 \<and> resource_status s1 ! j1 = Some t \<and>
    request_resource s1 t r2 = (Inr (), s2) \<and>
    thread_locks s2 ! k = Some r2 \<and> resource_status s2 ! j1 = Some t \<and>
    release_resource s2 t r1 = (Inr (), s2) \<and>
    (unrecorded s j1 \<longrightarrow>
       (\<forall>calls. resource_status (run_calls s2 calls) ! j1 = Some t \<and>
          release_resource (run_calls s2 calls) t r1 = (Inr (), run_calls s2 calls)))"
proof -
  have l: "length (thread_locks s) = num_threads_d s" "length (resource_status s) = num_resources_d s"
    using wf by (simp_all add: wf_detector_def)
  have kn: "k < length (thread_locks s)" and j1n: "j1 < length (resource_status s)"
    and j2n: "j2 < length (resource_status s)"
    using k j1 j2 l by (simp_all add: py_index_less)
  have rne: "r1 \<noteq> r2" using j1 j2 ne by auto
  let ?s1 = "s\<lparr>resource_status := (resource_status s)[j1 := Some t],
               thread_locks := (thread_locks s)[k := Some r1]\<rparr>"
  let ?s2 = "?s1\<lparr>resource_status := (resource_status ?s1)[j2 := Some t],
                 thread_locks := (thread_locks ?s1)[k := Some r2]\<rparr>"
  have q1: "request_resource s t r1 = (Inr (), ?s1)"
    using k j1 l free(1) by (intro request_resource_free) simp_all
  have q2: "request_resource ?s1 t r2 = (Inr (), ?s2)"
    using k j2 l free(2) ne by (intro request_resource_free) simp_all
  have rel: "release_resource ?s2 t r1 = (Inr (), ?s2)"
    using release_resource_closed[of ?s2 t k r1 j1] k j1 l kn rne by simp
  have perm: "resource_status (run_calls ?s2 calls) ! j1 = Some t \<and>
      release_resource (run_calls ?s2 calls) t r1 = (Inr (), run_calls ?s2 calls)"
    if u: "unrecorded s j1" for calls
  proof -
    have "leaked ?s2 j1 t"
      using u j1n ne j2 l kn
      by (auto simp: leaked_def unrecorded_def list_all_length nth_list_update)
    then have lk: "leaked (run_calls ?s2 calls) j1 t" by (rule leaked_run_calls)
    have len: "length (resource_status (run_calls ?s2 calls)) = num_resources_d s"
      "length (thread_locks (run_calls ?s2 calls)) = num_threads_d s"
      using lengths_run_calls[of ?s2 calls] l by simp_all
    have "release_resource (run_calls ?s2 calls) t r1 = (Inr (), run_calls ?s2 calls)
        \<or> release_resource (run_calls ?s2 calls) t r1 = (Inl IndexError, run_calls ?s2 calls)"
      using lk j1 len by (intro leaked_release_noop) simp_all
    moreover have "fst (release_resource (run_calls ?s2 calls) t r1) \<noteq> Inl IndexError"
    proof -
      have "\<not> denotes (length (resource_status (run_calls ?s2 calls)))
          (thread_locks (run_calls ?s2 calls) ! k) j1"
        using lk len kn l by (intro unrecorded_nth) (simp_all add: leaked_def)
      then have "thread_locks (run_calls ?s2 calls) ! k \<noteq> Some r1"
        using j1 len by auto
      then show ?thesis
        using k len by (simp add: release_resource_def py_get_index)
    qed
    ultimately have "release_resource (run_calls ?s2 calls) t r1 = (Inr (), run_calls ?s2 calls)"
      by auto
    then show ?thesis using lk by (simp add: leaked_def)
  qed
  have a: "thread_locks ?s1 ! k = Some r1" "resource_status ?s1 ! j1 = Some t"
    "thread_locks ?s2 ! k = Some r2" "resource_status ?s2 ! j1 = Some t"
    using kn j1n ne by simp_all
  show ?thesis
    using q1 q2 rel a perm by blast
qed

theorem second_acquire_overwrites_lock_record_witness:
  "wf_detector (detector_init 2 2) \<and> unrecorded (detector_init 2 2) 0 \<and>
   thread_locks two_acquired = [Some 1, None] \<and>
   resource_status two_acquired = [Some 0, Some 0] \<and>
   release_resource two_acquired 0 0 = (Inr (), two_acquired) \<and>
   resource_status (run_calls two_acquired [Release 0 1, Release 0 0, Request 1 0]) ! 0 = Some 0"
proof -
  let ?s = "detector_init 2 2"
  have wf: "wf_detector ?s" and u: "unrecorded ?s 0"
    by code_simp+
  have k: "py_index (num_threads_d ?s) 0 = Inr 0"
    and j1: "py_index (num_resources_d ?s) 0 = Inr 0"
    and j2: "py_index (num_resources_d ?s) 1 = Inr 1"
    by code_simp+
  have f: "resource_status ?s ! 0 = None" "resource_status ?s ! 1 = None"
    by code_simp+
  have ne: "(0::nat) \<noteq> 1" by simp
  from second_acquire_overwrites_lock_record[OF wf k j1 j2 ne f]
  obtain s1 s2 where q1: "request_resource ?s 0 0 = (Inr (), s1)"
    and q2: "request_resource s1 0 1 = (Inr (), s2)"
    and rel: "release_resource s2 0 0 = (Inr (), s2)"
    and perm: "unrecorded ?s 0 \<longrightarrow>
       (\<forall>calls. resource_status (run_calls s2 calls) ! 0 = Some 0 \<and>
          release_resource (run_calls s2 calls) 0 0 = (Inr (), run_calls s2 calls))"
    by blast
  have s2: "s2 = two_acquired"
    using q1 q2 by (simp add: two_acquired_def run_calls_def)
  have "thread_locks two_acquired = [Some 1, None]" "resource_status two_acquired = [Some 0, Some 0]"
    by code_simp+
  then show ?thesis
    using wf u rel perm s2 by simp
qed

section \<open>The detector: what check_deadlock computes on every well-formed state\<close>

text \<open>
  Whatever the held map says, \<^verbatim>\<open>check_deadlock\<close> returns, and it returns \<open>True\<close> exactly
  when the graph read off the lock records has a cycle; a thread met again after it has
  been fully explored and taken off the stack is therefore not reported. In scenario B
  that graph has the cycle of the two threads and the result is \<open>True\<close>; in the state
  where thread 0 has acquired two resources it has the one edge from thread 0 to thread
  1 and the result is \<open>False\<close>.
\<close>

theorem check_deadlock_reads_lock_records:
  assumes "wf_detector s"
  shows "check_deadlock s = Some (Inr (has_cycle (lock_graph s)))"
proof -
  let ?m = "\<lparr>visited = replicate (num_threads_d s) False,
             rec_stack = replicate (num_threads_d s) False\<rparr>"
  have seen0: "seen ?m = {}" and st0: "stacked ?m = {}"
    by (auto simp: seen_def stacked_def)
  then have pre: "dfs_pre s (num_threads_d s) ?m"
    by (simp add: dfs_pre_def wf_marks_def settled_def finished_def)
  show ?thesis
    unfolding check_deadlock_def
    using assms pre st0 by (rule check_loop_post) simp_all
qed

theorem check_deadlock_reads_lock_records_witness:
  "wf_detector scenario_B \<and>
   thread_locks scenario_B = [Some 0, Some 1] \<and>
   waiting_threads scenario_B 0 = Some [1] \<and> waiting_threads scenario_B 1 = Some [0] \<and>
   check_deadlock scenario_B = Some (Inr True) \<and>
   has_cycle (lock_graph scenario_B) \<and>
   wf_detector two_locks_state \<and>
   check_deadlock two_locks_state = Some (Inr False) \<and>
   \<not> has_cycle (lock_graph two_locks_state) \<and>
   (0, 1) \<in> lock_graph two_locks_state \<and> (1, 0) \<notin> lock_graph two_locks_state"
proof -
  have wb: "wf_detector scenario_B" and wf: "wf_detector two_locks_state"
    by code_simp+
  have cb: "check_deadlock scenario_B = Some (Inr True)"
    by code_simp
  have c: "check_deadlock two_locks_state = Some (Inr False)"
    by code_simp
  have "has_cycle (lock_graph scenario_B)"
    using check_deadlock_reads_lock_records[OF wb] cb by simp
  moreover have "\<not> has_cycle (lock_graph two_locks_state)"
    using check_deadlock_reads_lock_records[OF wf] c by simp
  moreover have "(0, 1) \<in> lock_graph two_locks_state" "(1, 0) \<notin> lock_graph two_locks_state"
    by (simp_all add: lock_graph_def waiting_of_def two_locks_state_fields)
  ultimately show ?thesis
    using wb wf cb c by (simp add: scenario_B_fields)
qed

text \<open>
  The lock records are compared with the awaited resources as numbers, while a resource
  is taken and found taken by indexing. When each thread of scenario B asks for the
  other's resource under the negative number of its slot, each waits for a resource the
  other holds, and \<^verbatim>\<open>check_deadlock\<close> returns \<open>False\<close>.
\<close>

lemma alias_state_fields:
  "resource_status alias_state = [Some 0, Some 1]"
  "thread_locks alias_state = [Some 0, Some 1]"
  "waiting_threads alias_state 0 = Some [- 1]"
  "waiting_threads alias_state 1 = Some [- 2]"
  "num_threads_d alias_state = 2"
  by code_simp+

theorem check_deadlock_misses_alias_cycle:
  "thread_locks alias_state = [Some 0, Some 1] \<and>
   waiting_threads alias_state 0 = Some [- 1] \<and>
   waiting_threads alias_state 1 = Some [- 2] \<and>
   held alias_state (- 1) = Some 1 \<and> held alias_state (- 2) = Some 0 \<and>
   has_cycle (wait_for alias_state) \<and>
   check_deadlock alias_state = Some (Inr False)"
proof -
  have h: "held alias_state (- 1) = Some 1" "held alias_state (- 2) = Some 0"
    by (simp_all add: held_def py_get_def py_index_def alias_state_fields)
  have e1: "(0, 1) \<in> wait_for alias_state"
    using h by (simp add: wait_for_def waiting_of_def alias_state_fields)
  have e2: "(1, 0) \<in> wait_for alias_state"
    using h by (simp add: wait_for_def waiting_of_def alias_state_fields)
  have "(0, 0) \<in> (wait_for alias_state)\<^sup>+"
    using e1 e2 by (rule trancl_into_trancl[OF r_into_trancl])
  then have c: "has_cycle (wait_for alias_state)"
    unfolding has_cycle_def by blast
  have "check_deadlock alias_state = Some (Inr False)"
    by code_simp
  then show ?thesis
    using h c by (simp add: alias_state_fields)
qed

end
